theory Spec2Isabelle
  imports Complex_Main "HOL-Library.Word" "HOL-Library.Signed_Division"
begin

unbundle bit_operations_syntax

section \<open>Common data: bytes, buffers and C strings\<close>

text \<open>
  The target is the SH4 in little-endian mode: \<open>int\<close>, \<open>unsigned int\<close>, \<open>long\<close>,
  \<open>size_t\<close>, \<open>ptrdiff_t\<close> and pointers are all 32 bits wide. A \<open>char\<close> buffer is a
  list of bytes, addressed from the pointer the C code holds; a C string is the run of
  bytes before the first NUL.
\<close>

type_synonym u32 = "32 word"

abbreviation NUL :: char where
  "NUL \<equiv> CHR 0x00"

text \<open>The text a \<open>char *\<close> denotes: the bytes before the first NUL of the buffer.\<close>

definition cstring :: "char list \<Rightarrow> string" where
  "cstring buf = takeWhile (\<lambda>c. c \<noteq> NUL) buf"

text \<open>
  \<open>memmove(dst + d, src + s, n)\<close>: the source bytes are read before any byte is written,
  so the two regions may overlap (\<open>dst\<close> and \<open>src\<close> may be the same buffer). A list
  is all the memory that may be accessed through the pointer. A copy that reads past the
  end of \<open>src\<close> or writes past the end of \<open>dst\<close> is undefined in C: the result is
  \<open>None\<close>.
\<close>

definition memmove :: "char list \<Rightarrow> nat \<Rightarrow> char list \<Rightarrow> nat \<Rightarrow> nat \<Rightarrow> char list option" where
  "memmove dst d src s n =
     (if s + n \<le> length src \<and> d + n \<le> length dst
      then Some (take d dst @ take n (drop s src) @ drop (d + n) dst)
      else None)"


section \<open>simple\_print.c: the numeral and float renderers\<close>

definition dec_hex_data :: string where
  "dec_hex_data = ''0123456789abcdef''"

text \<open>\<open>stringlength\<close>: walk the buffer until the first NUL.\<close>

fun stringlength :: "char list \<Rightarrow> nat" where
  "stringlength [] = 0"
| "stringlength (c # cs) = (if c = NUL then 0 else Suc (stringlength cs))"

subsection \<open>\<open>int_to_string\<close>\<close>

text \<open>
  The loop \<open>for (i = 10; i >= 0; i--)\<close>. The first argument is \<open>i + 1\<close>, so that
  \<open>0\<close> is the exit of the loop (\<open>i = -1\<close>). \<open>in_number\<close> is the value of the C
  \<open>int\<close>; \<open>sdiv\<close> and \<open>smod\<close> are C's division and remainder, which truncate towards
  zero, so the remainder of a negative value is not positive. The quotient by 10 of a
  32-bit value is again a 32-bit value, and the only negation is that of a remainder.
  The realigning \<open>memmove\<close> copies \<open>12 - i\<close> bytes from \<open>out_string + i + 1\<close>: the
  last of them is \<open>out_string[12]\<close>, the byte behind the 12 the function asks for.
\<close>

fun int_to_string_loop :: "nat \<Rightarrow> int \<Rightarrow> bool \<Rightarrow> bool \<Rightarrow> char list \<Rightarrow> char list option" where
  "int_to_string_loop 0 in_number need_neg neg out_string = Some out_string"
| "int_to_string_loop (Suc i) in_number need_neg neg out_string =
     (if need_neg \<and> in_number = 0 \<and> i < 10 then
        int_to_string_loop i (in_number sdiv 10) False neg (out_string[i := CHR ''-''])
      else if in_number = 0 \<and> i < 10 then
        memmove out_string 0 out_string (i + 1) (12 - i)
      else if neg then
        int_to_string_loop i (in_number sdiv 10) need_neg neg
          (out_string[i := dec_hex_data ! nat (- (in_number smod 10))])
      else
        int_to_string_loop i (in_number sdiv 10) need_neg neg
          (out_string[i := dec_hex_data ! nat (in_number smod 10)]))"

definition int_to_string :: "u32 \<Rightarrow> char list \<Rightarrow> char list option" where
  "int_to_string in_number out_string =
     int_to_string_loop 11 (sint in_number) (sint in_number < 0) (sint in_number < 0)
       (out_string[11 := NUL])"

subsection \<open>\<open>append_string\<close>\<close>

definition append_string :: "char list \<Rightarrow> char list \<Rightarrow> char list \<Rightarrow> char list option" where
  "append_string string1 string2 out_string =
     (let len1 = stringlength string1;
          len2 = stringlength string2 + 1
      in case memmove out_string 0 string1 0 len1 of
           None \<Rightarrow> None
         | Some out_string \<Rightarrow> memmove out_string len1 string2 0 len2)"

subsection \<open>\<open>mantissa_to_string\<close> (built with \<open>FLOAT_ROUNDING\<close> defined)\<close>

text \<open>
  The accumulation loop \<open>while (shifter >= 22 - int_cutoff)\<close> with \<open>int_cutoff = 8\<close>:
  for every set mantissa bit the running power of five is added, and between two bits
  the accumulator is multiplied by ten. All values are \<open>unsigned int\<close>.
\<close>

function mantissa_bits :: "nat \<Rightarrow> u32 \<Rightarrow> u32 \<Rightarrow> u32 \<Rightarrow> u32" where
  "mantissa_bits shifter mant fivecount temp_output =
     (if shifter < 22 - 8 then temp_output
      else
        let temp_output =
              (if drop_bit shifter mant AND 1 \<noteq> 0 then temp_output + fivecount
               else temp_output)
        in if shifter = 22 - 8 then temp_output
           else mantissa_bits (shifter - 1) mant (fivecount * 5) (temp_output * 10))"
  by pat_completeness auto
termination
  by (relation "measure (\<lambda>(shifter, mant, fivecount, temp_output). shifter)") auto

declare mantissa_bits.simps [simp del]

text \<open>\<open>for (j = digit_bound; j >= 0; j--) out_string[j] = '0';\<close> The first argument is
  \<open>j + 1\<close>; \<open>off\<close> is the offset of \<open>out_string\<close> in the buffer it points into.\<close>

fun all_zeroes :: "nat \<Rightarrow> nat \<Rightarrow> char list \<Rightarrow> char list" where
  "all_zeroes 0 off buf = buf"
| "all_zeroes (Suc j) off buf = all_zeroes j off (buf[off + j := CHR ''0''])"

text \<open>The final loop that writes the decimal digits of \<open>temp_output\<close>, last digit first.\<close>

fun mantissa_digits :: "nat \<Rightarrow> nat \<Rightarrow> u32 \<Rightarrow> nat \<Rightarrow> char list \<Rightarrow> char list" where
  "mantissa_digits 0 digit_bound temp_output off buf = buf"
| "mantissa_digits (Suc j) digit_bound temp_output off buf =
     mantissa_digits j digit_bound (temp_output div 10) off
       (buf[off + j := (if temp_output = 0 \<and> j < digit_bound then CHR ''0''
                        else dec_hex_data ! unat (temp_output mod 10))])"

text \<open>\<open>tenpow = 10; for (sillypow = 0; sillypow < decimal_point_digits; sillypow++) tenpow *= 10;\<close>\<close>

fun sillypow :: "nat \<Rightarrow> u32 \<Rightarrow> u32" where
  "sillypow 0 tenpow = tenpow"
| "sillypow (Suc n) tenpow = sillypow n (tenpow * 10)"

text \<open>
  \<open>mantissa_to_string\<close> writes into \<open>out_string = buf + off\<close> and sets the caller's
  \<open>exponent_add\<close> byte; the model returns both. The two early returns leave
  \<open>exponent_add\<close> as the caller initialised it. \<open>decimal_point_digits\<close> is documented
  to be 1, 2 or 3.
\<close>

definition mantissa_to_string ::
  "u32 \<Rightarrow> nat \<Rightarrow> 8 word \<Rightarrow> nat \<Rightarrow> char list \<Rightarrow> 8 word \<times> char list" where
  "mantissa_to_string mant decimal_point_digits exponent_add off buf0 =
     (let digit_bound = decimal_point_digits - 1;
          buf = buf0[off + decimal_point_digits := NUL]
      in if decimal_point_digits = 0 then (exponent_add, buf[off := NUL])
         else if mant = 0 then (exponent_add, all_zeroes decimal_point_digits off buf)
         else
           let temp_output = mantissa_bits 22 mant 5 0;
               temp_output =
                 (if decimal_point_digits = 1 then temp_output div 10000000
                  else if decimal_point_digits = 2 then temp_output div 1000000
                  else if decimal_point_digits = 3 then temp_output div 100000
                  else temp_output);
               round_check = temp_output mod 10;
               temp_output =
                 (if round_check \<ge> 5 then temp_output + (10 - round_check) else temp_output)
           in if round_check \<ge> 5 \<and> temp_output = sillypow decimal_point_digits 10
              then (1, all_zeroes decimal_point_digits off buf)
              else (0, mantissa_digits decimal_point_digits digit_bound
                         (temp_output div 10) off buf))"

subsection \<open>\<open>float_to_string\<close>\<close>

text \<open>
  The argument is the IEEE-754 single-precision bit pattern of \<open>in_float\<close>. The packed
  bit-field struct \<open>FLOAT_FORMAT_STRUCT\<close> laid over it has the 23-bit mantissa in the low
  bits, then the 8-bit exponent, then the sign bit.
\<close>

record FLOAT_FORMAT_STRUCT =
  fs_mantissa :: u32
  fs_exponent :: u32
  fs_sign :: u32

definition float_struct_of :: "u32 \<Rightarrow> FLOAT_FORMAT_STRUCT" where
  "float_struct_of in_float =
     \<lparr> fs_mantissa = in_float AND 0x7FFFFF,
       fs_exponent = drop_bit 23 in_float AND 0xFF,
       fs_sign = drop_bit 31 in_float AND 1 \<rparr>"

text \<open>
  The two floating-point comparisons of the function, by their IEEE-754 meaning on bit
  patterns: \<open>fcmp/eq\<close> of a value with itself fails exactly for a NaN (all exponent bits
  set and a non-zero mantissa), and \<open>in_float == 0.0f\<close> holds for both zeroes.
\<close>

definition compare_isnan :: "u32 \<Rightarrow> bool" where
  "compare_isnan in_float \<longleftrightarrow>
     drop_bit 23 in_float AND 0xFF = 0xFF \<and> in_float AND 0x7FFFFF \<noteq> 0"

definition float_eq_zero :: "u32 \<Rightarrow> bool" where
  "float_eq_zero in_float \<longleftrightarrow> in_float AND 0x7FFFFFFF = 0"

text \<open>The two file-scope scratch arrays, \<open>char temp_buffer_exp[12]\<close> and
  \<open>char temp_buffer_mant[4 + 7]\<close>; they keep their contents between calls. Each field
  is the memory from the start of its array on: \<open>int_to_string\<close> reads one byte behind
  the 12 of \<open>temp_buffer_exp\<close>.\<close>

record float_statics =
  temp_buffer_exp :: "char list"
  temp_buffer_mant :: "char list"

text \<open>Both arrays start zeroed (\<open>= {0}\<close>); \<open>behind\<close> is what lies behind
  \<open>temp_buffer_exp\<close> in memory.\<close>

definition float_statics_init :: "char list \<Rightarrow> float_statics" where
  "float_statics_init behind =
     \<lparr> temp_buffer_exp = replicate 12 NUL @ behind, temp_buffer_mant = replicate 11 NUL \<rparr>"

definition float_to_string ::
  "u32 \<Rightarrow> nat \<Rightarrow> char list \<Rightarrow> float_statics \<Rightarrow> (char list \<times> float_statics) option" where
  "float_to_string in_float decimal_point_digits out_string st =
     (let float_struct = float_struct_of in_float
      in if compare_isnan in_float then
           Some (out_string[0 := CHR ''N'', 1 := CHR ''a'', 2 := CHR ''N'', 3 := NUL], st)
         else if float_eq_zero in_float then
           Some (out_string[0 := CHR ''0'', 1 := CHR ''.'', 2 := CHR ''0'', 3 := NUL], st)
         else if fs_sign float_struct \<noteq> 0 \<and> fs_exponent float_struct = 0xFF then
           Some (out_string[0 := CHR ''-'', 1 := CHR ''I'', 2 := CHR ''n'', 3 := CHR ''f'',
                            4 := NUL], st)
         else if fs_exponent float_struct = 0xFF then
           Some (out_string[0 := CHR ''I'', 1 := CHR ''n'', 2 := CHR ''f'', 3 := NUL], st)
         else
           let denormal = (fs_exponent float_struct = 0);
               (exponent_add_1, mbuf) =
                 (if fs_sign float_struct \<noteq> 0 then
                    mantissa_to_string (fs_mantissa float_struct) decimal_point_digits 0 3
                      (temp_buffer_mant st)
                  else
                    mantissa_to_string (fs_mantissa float_struct) decimal_point_digits 0 2
                      (temp_buffer_mant st));
               mbuf =
                 (if fs_sign float_struct \<noteq> 0 then
                    (if denormal \<and> exponent_add_1 = 0
                     then mbuf[0 := CHR ''-'', 1 := CHR ''0'', 2 := CHR ''.'']
                     else mbuf[0 := CHR ''-'', 1 := CHR ''1'', 2 := CHR ''.''])
                  else
                    (if denormal \<and> exponent_add_1 = 0
                     then mbuf[0 := CHR ''0'', 1 := CHR ''.'']
                     else mbuf[0 := CHR ''1'', 1 := CHR ''.'']));
               mantlen = stringlength mbuf;
               mbuf = mbuf[mantlen := CHR ''x'', mantlen + 1 := CHR ''2'',
                           mantlen + 2 := CHR ''^'', mantlen + 3 := NUL];
               ebuf =
                 (if denormal then
                    Some ((temp_buffer_exp st)[0 := CHR ''-'', 1 := CHR ''1'', 2 := CHR ''2'',
                                               3 := CHR ''6'', 4 := NUL])
                  else
                    int_to_string
                      (word_of_int (uint (fs_exponent float_struct) - 127
                                    + uint exponent_add_1))
                      (temp_buffer_exp st))
           in case ebuf of
                None \<Rightarrow> None
              | Some ebuf \<Rightarrow>
                  (case append_string mbuf ebuf out_string of
                     None \<Rightarrow> None
                   | Some out_string \<Rightarrow>
                       Some (out_string,
                             \<lparr> temp_buffer_exp = ebuf, temp_buffer_mant = mbuf \<rparr>)))"


section \<open>print.c: the format engine\<close>

text \<open>
  C \<open>int\<close> values (\<open>width\<close>, \<open>dwidth\<close>, \<open>n\<close>, \<open>tmp\<close>, \<open>retval\<close>, \<open>radix\<close>) are
  integers kept in the 32-bit two's complement range: \<open>int32\<close> is applied wherever the
  C arithmetic could leave it, so an overflow wraps as it does on the SH4. The
  \<open>unsigned int\<close> \<open>num\<close> is a 32-bit word.
\<close>

definition int32 :: "int \<Rightarrow> int" where
  "int32 x = signed_take_bit 31 x"

text \<open>A plain \<open>char\<close> read as an \<open>int\<close>: \<open>char\<close> is signed on this target.\<close>

definition schar :: "char \<Rightarrow> int" where
  "schar c = signed_take_bit 7 (of_char c)"

definition hex2ascii_data :: string where
  "hex2ascii_data = ''0123456789abcdefghijklmnopqrstuvwxyz''"

definition hex2ascii :: "nat \<Rightarrow> char" where
  "hex2ascii hex = hex2ascii_data ! hex"

definition toupper :: "char \<Rightarrow> char" where
  "toupper c =
     (if (97::nat) \<le> of_char c \<and> of_char c \<le> (122::nat)
      then char_of (of_char c - (32::nat)) else c)"

definition imax :: "int \<Rightarrow> int \<Rightarrow> int" where
  "imax a b = (if a > b then a else b)"

subsection \<open>The variable arguments\<close>

text \<open>
  The \<open>va_list\<close> is a list of tagged values. Every integer type the engine fetches
  (\<open>int\<close>, \<open>unsigned int\<close>, \<open>long\<close>, \<open>size_t\<close>, \<open>ptrdiff_t\<close>) is one 32-bit slot.
  A \<open>char *\<close> is \<open>NULL\<close> or the bytes it points to, up to the terminating NUL; an
  \<open>unsigned char *\<close> (for \<open>%D\<close>) is the bytes that may be read through it; the
  target of \<open>%n\<close> is named by a number. Fetching an argument that is not there, or one
  of another kind, is undefined in C: the model stops with a \<open>fault\<close>, as it does for
  a read past the end of a string or of the bytes of \<open>%D\<close>, a \<open>NULL\<close> that is
  dereferenced, and a shift count outside 0..31.
\<close>

datatype va_value =
    VInt u32
  | VStr "string option"
  | VBytes "char list"
  | VPtr u32
  | VCount nat

datatype fault = ArgMissing | ArgType | ReadOverrun | NullDeref | ShiftRange

fun va_int :: "va_value list \<Rightarrow> fault + (u32 \<times> va_value list)" where
  "va_int [] = Inl ArgMissing"
| "va_int (VInt v # rest) = Inr (v, rest)"
| "va_int (_ # rest) = Inl ArgType"

fun va_str :: "va_value list \<Rightarrow> fault + (string option \<times> va_value list)" where
  "va_str [] = Inl ArgMissing"
| "va_str (VStr p # rest) = Inr (p, rest)"
| "va_str (_ # rest) = Inl ArgType"

fun va_bytes :: "va_value list \<Rightarrow> fault + (char list \<times> va_value list)" where
  "va_bytes [] = Inl ArgMissing"
| "va_bytes (VBytes up # rest) = Inr (up, rest)"
| "va_bytes (_ # rest) = Inl ArgType"

fun va_ptr :: "va_value list \<Rightarrow> fault + (u32 \<times> va_value list)" where
  "va_ptr [] = Inl ArgMissing"
| "va_ptr (VPtr v # rest) = Inr (v, rest)"
| "va_ptr (_ # rest) = Inl ArgType"

fun va_count :: "va_value list \<Rightarrow> fault + (nat \<times> va_value list)" where
  "va_count [] = Inl ArgMissing"
| "va_count (VCount a # rest) = Inr (a, rest)"
| "va_count (_ # rest) = Inl ArgType"

subsection \<open>State\<close>

text \<open>
  What \<open>kvprintf\<close> carries from one directive to the next: the argument pointer
  \<open>ap\<close>, the sink (\<open>arg\<close>, handed to \<open>func\<close> at every character), the count
  \<open>retval\<close>, the lockout flag \<open>stop\<close>, and the stores made through \<open>%n\<close> pointers.
\<close>

record 's kv_state =
  ap :: "va_value list"
  sink :: 's
  retval :: int
  stop :: bool
  stored :: "(nat \<times> int) list"

text \<open>The variables one directive sets while its flags are read; all are reset at each
  \<open>%\<close> (\<open>padc\<close> and \<open>width\<close> at the top of the \<open>for\<close> loop).\<close>

record directive =
  padc :: char
  width :: int
  dwidth :: int
  ladjust :: bool
  sharpflag :: bool
  sign :: bool
  dot :: bool
  lflag :: bool
  hflag :: bool
  cflag :: bool
  jflag :: bool
  tflag :: bool
  zflag :: bool

definition directive_init :: directive where
  "directive_init =
     \<lparr> padc = CHR '' '', width = 0, dwidth = 0, ladjust = False, sharpflag = False,
       sign = False, dot = False, lflag = False, hflag = False, cflag = False,
       jflag = False, tflag = False, zflag = False \<rparr>"

text \<open>\<open>PCHAR(c)\<close>: hand the character to the sink and count it. \<open>PCHARs\<close> is a run of
  \<open>PCHAR\<close>s, first character first.\<close>

definition PCHAR :: "(char \<Rightarrow> 's \<Rightarrow> 's) \<Rightarrow> char \<Rightarrow> 's kv_state \<Rightarrow> 's kv_state" where
  "PCHAR func c st = st\<lparr> sink := func c (sink st), retval := int32 (retval st + 1) \<rparr>"

definition PCHARs :: "(char \<Rightarrow> 's \<Rightarrow> 's) \<Rightarrow> string \<Rightarrow> 's kv_state \<Rightarrow> 's kv_state" where
  "PCHARs func cs st = fold (PCHAR func) cs st"

subsection \<open>\<open>ksprintn\<close>\<close>

text \<open>
  The four \<open>do ... while\<close> loops. Each returns the characters it stores at
  \<open>nbuf[1]\<close>, \<open>nbuf[2]\<close>, ...: the digits, least significant first.
\<close>

function ksprintn_10 :: "u32 \<Rightarrow> bool \<Rightarrow> string" where
  "ksprintn_10 num upper =
     (let c = hex2ascii (unat (num mod 10));
          c = (if upper then toupper c else c)
      in if num div 10 = 0 then [c] else c # ksprintn_10 (num div 10) upper)"
  by pat_completeness auto
termination
proof -
  have "unat (n div 10) < unat n" if "n div 10 \<noteq> 0" for n :: u32
  proof -
    from that have "n \<noteq> 0" by auto
    then have "0 < unat n" by (simp add: unat_gt_0)
    then show ?thesis by (simp add: unat_div_distrib)
  qed
  then show ?thesis
    by (relation "measure (\<lambda>(num, upper). unat num)") auto
qed

function ksprintn_16 :: "u32 \<Rightarrow> bool \<Rightarrow> string" where
  "ksprintn_16 num upper =
     (let c = hex2ascii (unat (num AND 15));
          c = (if upper then toupper c else c)
      in if drop_bit 4 num = 0 then [c] else c # ksprintn_16 (drop_bit 4 num) upper)"
  by pat_completeness auto
termination
proof -
  have "unat (drop_bit 4 n) < unat n" if "drop_bit 4 n \<noteq> 0" for n :: u32
  proof -
    from that have "n \<noteq> 0" by auto
    then have "0 < unat n" by (simp add: unat_gt_0)
    then show ?thesis by (simp add: drop_bit_eq_div unat_div_distrib)
  qed
  then show ?thesis
    by (relation "measure (\<lambda>(num, upper). unat num)") auto
qed

function ksprintn_8 :: "u32 \<Rightarrow> bool \<Rightarrow> string" where
  "ksprintn_8 num upper =
     (let c = hex2ascii (unat (num AND 7));
          c = (if upper then toupper c else c)
      in if drop_bit 3 num = 0 then [c] else c # ksprintn_8 (drop_bit 3 num) upper)"
  by pat_completeness auto
termination
proof -
  have "unat (drop_bit 3 n) < unat n" if "drop_bit 3 n \<noteq> 0" for n :: u32
  proof -
    from that have "n \<noteq> 0" by auto
    then have "0 < unat n" by (simp add: unat_gt_0)
    then show ?thesis by (simp add: drop_bit_eq_div unat_div_distrib)
  qed
  then show ?thesis
    by (relation "measure (\<lambda>(num, upper). unat num)") auto
qed

function ksprintn_2 :: "u32 \<Rightarrow> bool \<Rightarrow> string" where
  "ksprintn_2 num upper =
     (let c = hex2ascii (unat (num AND 1));
          c = (if upper then toupper c else c)
      in if drop_bit 1 num = 0 then [c] else c # ksprintn_2 (drop_bit 1 num) upper)"
  by pat_completeness auto
termination
proof -
  have "unat (drop_bit 1 n) < unat n" if "drop_bit 1 n \<noteq> 0" for n :: u32
  proof -
    from that have "n \<noteq> 0" by auto
    then have "0 < unat n" by (simp add: unat_gt_0)
    then show ?thesis by (simp add: drop_bit_eq_div unat_div_distrib)
  qed
  then show ?thesis
    by (relation "measure (\<lambda>(num, upper). unat num)") auto
qed

declare ksprintn_10.simps [simp del] ksprintn_16.simps [simp del]
  ksprintn_8.simps [simp del] ksprintn_2.simps [simp del]

text \<open>\<open>ksprintn\<close>: the digits as they lie in \<open>nbuf\<close> after the leading NUL; the length
  \<open>*lenp\<close> is the length of this list, the returned pointer is at its last character.
  Any base other than 10, 16, 8 and 2 stores the single character \<open>?\<close>.\<close>

definition ksprintn :: "u32 \<Rightarrow> int \<Rightarrow> bool \<Rightarrow> string" where
  "ksprintn num base upper =
     (if base = 10 then ksprintn_10 num upper
      else if base = 16 then ksprintn_16 num upper
      else if base = 8 then ksprintn_8 num upper
      else if base = 2 then ksprintn_2 num upper
      else ''?'')"

subsection \<open>The conversions\<close>

text \<open>The padding loops. \<open>while (width--) PCHAR(padc);\<close> is entered only with
  \<open>width > 0\<close> and leaves \<open>width = -1\<close>; \<open>while (width-- > 0) PCHAR(' ');\<close> leaves
  \<open>-1\<close> after a positive width and \<open>width - 1\<close> otherwise.\<close>

definition pad_after :: "int \<Rightarrow> int" where
  "pad_after w = (if w > 0 then - 1 else int32 (w - 1))"

text \<open>\<open>%c\<close>.\<close>

definition kv_char :: "(char \<Rightarrow> 's \<Rightarrow> 's) \<Rightarrow> directive \<Rightarrow> 's kv_state \<Rightarrow> fault + 's kv_state" where
  "kv_char func d st =
     (let w = int32 (width d - 1);
          st = (if \<not> ladjust d \<and> w > 0 then PCHARs func (replicate (nat w) (padc d)) st
                else st);
          w = (if \<not> ladjust d \<and> w > 0 then - 1 else w)
      in case va_int (ap st) of
           Inl e \<Rightarrow> Inl e
         | Inr (v, rest) \<Rightarrow>
             let st = PCHAR func (char_of (unat v)) (st\<lparr> ap := rest \<rparr>)
             in Inr (if ladjust d \<and> w > 0 then PCHARs func (replicate (nat w) (padc d)) st
                     else st))"

text \<open>\<open>%s\<close>. \<open>n\<close> is \<open>strlen(p)\<close>, or with a precision the count of the loop
  \<open>for (n = 0; n < dwidth && p[n]; n++)\<close>.\<close>

definition kv_string :: "(char \<Rightarrow> 's \<Rightarrow> 's) \<Rightarrow> directive \<Rightarrow> 's kv_state \<Rightarrow> fault + 's kv_state" where
  "kv_string func d st =
     (case va_str (ap st) of
        Inl e \<Rightarrow> Inl e
      | Inr (po, rest) \<Rightarrow>
          let p = (case po of None \<Rightarrow> ''(null)'' | Some s \<Rightarrow> cstring s);
              n = (if \<not> dot d then int (length p)
                   else if dwidth d \<le> 0 then 0
                   else min (dwidth d) (int (length p)));
              w = int32 (width d - n);
              st = st\<lparr> ap := rest \<rparr>;
              st = (if \<not> ladjust d \<and> w > 0 then PCHARs func (replicate (nat w) (padc d)) st
                    else st);
              w = (if \<not> ladjust d \<and> w > 0 then - 1 else w);
              st = PCHARs func (take (nat n) p) st
          in Inr (if ladjust d \<and> w > 0 then PCHARs func (replicate (nat w) (padc d)) st
                  else st))"

text \<open>\<open>%D\<close>: the loop \<open>while (width--)\<close> over the bytes at \<open>up\<close>, with the separator
  \<open>p\<close> between two bytes.\<close>

fun kv_hexdump ::
  "(char \<Rightarrow> 's \<Rightarrow> 's) \<Rightarrow> int \<Rightarrow> char list \<Rightarrow> string option \<Rightarrow> 's kv_state \<Rightarrow> fault + 's kv_state"
where
  "kv_hexdump func w [] p st = (if w = 0 then Inr st else Inl ReadOverrun)"
| "kv_hexdump func w (b # up) p st =
     (if w = 0 then Inr st
      else
        let st = PCHAR func (hex2ascii (of_char b div 16)) st;
            st = PCHAR func (hex2ascii (of_char b mod 16)) st;
            w = int32 (w - 1)
        in if w \<noteq> 0 then
             (case p of
                None \<Rightarrow> Inl NullDeref
              | Some s \<Rightarrow> kv_hexdump func w up p (PCHARs func (cstring s) st))
           else kv_hexdump func w up p st)"

definition kv_dump :: "(char \<Rightarrow> 's \<Rightarrow> 's) \<Rightarrow> directive \<Rightarrow> 's kv_state \<Rightarrow> fault + 's kv_state" where
  "kv_dump func d st =
     (case va_bytes (ap st) of
        Inl e \<Rightarrow> Inl e
      | Inr (up, rest) \<Rightarrow>
          (case va_str rest of
             Inl e \<Rightarrow> Inl e
           | Inr (p, rest') \<Rightarrow>
               kv_hexdump func (if width d = 0 then 16 else width d) up p
                 (st\<lparr> ap := rest' \<rparr>)))"

text \<open>\<open>%n\<close>: \<open>retval\<close> is stored through the pointer, narrowed to \<open>short\<close> or
  \<open>char\<close> under \<open>h\<close> and \<open>hh\<close>.\<close>

definition kv_count :: "directive \<Rightarrow> 's kv_state \<Rightarrow> fault + 's kv_state" where
  "kv_count d st =
     (case va_count (ap st) of
        Inl e \<Rightarrow> Inl e
      | Inr (a, rest) \<Rightarrow>
          let v = (if jflag d then retval st
                   else if lflag d then retval st
                   else if zflag d then retval st
                   else if hflag d then signed_take_bit 15 (retval st)
                   else if cflag d then signed_take_bit 7 (retval st)
                   else retval st)
          in Inr (st\<lparr> ap := rest, stored := stored st @ [(a, v)] \<rparr>))"

text \<open>The bit names of \<open>%b\<close>: the loop \<open>while (*q)\<close>. A name runs while
  \<open>*q > ' '\<close>, compared as a (signed) \<open>char\<close>.\<close>

definition name_char :: "char \<Rightarrow> bool" where
  "name_char c \<longleftrightarrow> schar c > 32"

function kv_bits ::
  "(char \<Rightarrow> 's \<Rightarrow> 's) \<Rightarrow> u32 \<Rightarrow> int \<Rightarrow> string \<Rightarrow> 's kv_state \<Rightarrow> fault + 's kv_state"
where
  "kv_bits func num tmp [] st = Inr st"
| "kv_bits func num tmp (c # q) st =
     (if c = NUL then Inr st
      else if schar c - 1 < 0 \<or> 31 < schar c - 1 then Inl ShiftRange
      else if num AND push_bit (nat (schar c - 1)) 1 \<noteq> 0 then
        kv_bits func num tmp (dropWhile name_char q)
          (PCHARs func (takeWhile name_char q)
             (PCHAR func (if retval st \<noteq> tmp then CHR '','' else CHR ''<'') st))
      else kv_bits func num tmp (dropWhile name_char q) st)"
  by pat_completeness auto
termination
  by (relation "measure (\<lambda>(func, num, tmp, q, st). length q)")
     (auto simp: less_Suc_eq_le length_dropWhile_le)

text \<open>
  The common tail at the label \<open>number\<close>, in three parts. First the characters
  written up to and including the digits: the blank padding, the sign, the \<open>0\<close> or
  \<open>0x\<close> of the alternate form, the zero fill and the digits, which are written out
  backwards from the pointer \<open>ksprintn\<close> returned, down to the NUL at \<open>nbuf[0]\<close>.
\<close>

definition kv_number_out ::
  "(char \<Rightarrow> 's \<Rightarrow> 's) \<Rightarrow> directive \<Rightarrow> bool \<Rightarrow> bool \<Rightarrow> int \<Rightarrow> int \<Rightarrow> int \<Rightarrow> string \<Rightarrow>
   's kv_state \<Rightarrow> 's kv_state" where
  "kv_number_out func d neg sharp base w dw p st =
     (let st = (if \<not> ladjust d then PCHARs func (replicate (nat w) (CHR '' '')) st else st);
          st = (if neg then PCHAR func (CHR ''-'') st else st);
          st = (if sharp
                then (if base = 8 then PCHAR func (CHR ''0'') st
                      else if base = 16 then PCHARs func ''0x'' st
                      else st)
                else st);
          st = PCHARs func (replicate (nat dw) (CHR ''0'')) st
      in PCHARs func (rev p) st)"

text \<open>
  Then the bit names of \<open>%b\<close> and the blank padding of a left-justified field. \<open>q\<close>
  is the pointer of \<open>%b\<close> after the base byte was read: \<open>None\<close> when that byte was
  the terminator, so that \<open>q\<close> is past the end of the string.
\<close>

definition kv_number_tail ::
  "(char \<Rightarrow> 's \<Rightarrow> 's) \<Rightarrow> directive \<Rightarrow> u32 \<Rightarrow> bool \<Rightarrow> string option \<Rightarrow> int \<Rightarrow>
   's kv_state \<Rightarrow> fault + 's kv_state" where
  "kv_number_tail func d num bconv q w st =
     (if bconv \<and> num \<noteq> 0 then
        (case q of
           None \<Rightarrow> Inl ReadOverrun
         | Some qs \<Rightarrow>
             (case kv_bits func num (retval st) qs st of
                Inl e \<Rightarrow> Inl e
              | Inr st' \<Rightarrow>
                  if retval st' \<noteq> retval st then
                    Inr (if ladjust d
                         then PCHARs func
                                (replicate
                                   (nat (int32 (w - int32 (retval (PCHAR func (CHR ''>'') st')
                                                            - retval st))))
                                   (CHR '' ''))
                                (PCHAR func (CHR ''>'') st')
                         else PCHAR func (CHR ''>'') st')
                  else
                    Inr (if ladjust d then PCHARs func (replicate (nat w) (CHR '' '')) st'
                         else st')))
      else
        Inr (if ladjust d then PCHARs func (replicate (nat w) (CHR '' '')) st else st))"

text \<open>The whole: the arithmetic on \<open>neg\<close>, \<open>num\<close>, \<open>tmp\<close>, \<open>width\<close> and
  \<open>dwidth\<close> first, as in the source.\<close>

definition kv_number ::
  "(char \<Rightarrow> 's \<Rightarrow> 's) \<Rightarrow> directive \<Rightarrow> u32 \<Rightarrow> int \<Rightarrow> bool \<Rightarrow> bool \<Rightarrow> string option \<Rightarrow>
   's kv_state \<Rightarrow> fault + 's kv_state" where
  "kv_number func d num0 base upper bconv q st =
     (let neg = (sign d \<and> sint num0 < 0);
          num = (if neg then - num0 else num0);
          p = ksprintn num base upper;
          n = int (length p);
          tmp = (if sharpflag d \<and> num \<noteq> 0
                 then (if base = 8 then 1 else if base = 16 then 2 else 0) else 0);
          tmp = (if neg then tmp + 1 else tmp);
          dw = (if \<not> ladjust d \<and> padc d = CHR ''0'' then int32 (width d - tmp) else dwidth d);
          w = int32 (width d - int32 (tmp + imax dw n));
          dw = int32 (dw - n)
      in kv_number_tail func d num bconv q (if \<not> ladjust d then pad_after w else w)
           (kv_number_out func d neg (sharpflag d \<and> num \<noteq> 0) base w dw p st))"

text \<open>The argument fetch at \<open>handle_nosign\<close> and \<open>handle_sign\<close>, by length modifier.\<close>

definition fetch_nosign :: "directive \<Rightarrow> u32 \<Rightarrow> u32" where
  "fetch_nosign d v =
     (if jflag d then v else if tflag d then v else if lflag d then v else if zflag d then v
      else if hflag d then v AND 0xFFFF
      else if cflag d then v AND 0xFF
      else v)"

definition fetch_sign :: "directive \<Rightarrow> u32 \<Rightarrow> u32" where
  "fetch_sign d v =
     (if jflag d then v else if tflag d then v else if lflag d then v else if zflag d then v
      else if hflag d then signed_take_bit 15 v
      else if cflag d then signed_take_bit 7 v
      else v)"

definition kv_handle_nosign ::
  "(char \<Rightarrow> 's \<Rightarrow> 's) \<Rightarrow> directive \<Rightarrow> int \<Rightarrow> bool \<Rightarrow> bool \<Rightarrow> 's kv_state \<Rightarrow> fault + 's kv_state"
where
  "kv_handle_nosign func d base upper bconv st =
     (case va_int (ap st) of
        Inl e \<Rightarrow> Inl e
      | Inr (v, rest) \<Rightarrow>
          if bconv then
            (case va_str rest of
               Inl e \<Rightarrow> Inl e
             | Inr (None, rest') \<Rightarrow> Inl NullDeref
             | Inr (Some [], rest') \<Rightarrow>
                 kv_number func (d\<lparr> sign := False \<rparr>) (fetch_nosign d v) 0 upper True None
                   (st\<lparr> ap := rest' \<rparr>)
             | Inr (Some (b # q), rest') \<Rightarrow>
                 kv_number func (d\<lparr> sign := False \<rparr>) (fetch_nosign d v) (schar b) upper True
                   (Some q) (st\<lparr> ap := rest' \<rparr>))
          else
            kv_number func (d\<lparr> sign := False \<rparr>) (fetch_nosign d v) base upper False None
              (st\<lparr> ap := rest \<rparr>))"

definition kv_handle_sign ::
  "(char \<Rightarrow> 's \<Rightarrow> 's) \<Rightarrow> directive \<Rightarrow> int \<Rightarrow> 's kv_state \<Rightarrow> fault + 's kv_state" where
  "kv_handle_sign func d base st =
     (case va_int (ap st) of
        Inl e \<Rightarrow> Inl e
      | Inr (v, rest) \<Rightarrow>
          kv_number func d (fetch_sign d v) base False False None (st\<lparr> ap := rest \<rparr>))"

text \<open>\<open>%p\<close>.\<close>

definition kv_pointer :: "(char \<Rightarrow> 's \<Rightarrow> 's) \<Rightarrow> directive \<Rightarrow> 's kv_state \<Rightarrow> fault + 's kv_state" where
  "kv_pointer func d st =
     (case va_ptr (ap st) of
        Inl e \<Rightarrow> Inl e
      | Inr (v, rest) \<Rightarrow>
          kv_number func (d\<lparr> sharpflag := (width d = 0), sign := False \<rparr>) v 16 False False None
            (st\<lparr> ap := rest \<rparr>))"

subsection \<open>The format string\<close>

text \<open>
  The width or precision digits: \<open>ch\<close> is the digit just read. The result is the
  number and how many further characters of the format were consumed.
\<close>

fun kv_digits :: "int \<Rightarrow> char \<Rightarrow> string \<Rightarrow> int \<times> nat" where
  "kv_digits n ch [] = (int32 (n * 10 + int (of_char ch) - 48), 0)"
| "kv_digits n ch (c # fmt) =
     (if (of_char c :: nat) < 48 \<or> (57 :: nat) < of_char c
      then (int32 (n * 10 + int (of_char ch) - 48), 0)
      else (let (m, k) = kv_digits (int32 (n * 10 + int (of_char ch) - 48)) c fmt
            in (m, Suc k)))"

text \<open>\<open>case '1': case '2': ... case '9':\<close>\<close>

definition is_digit19 :: "char \<Rightarrow> bool" where
  "is_digit19 c \<longleftrightarrow> c \<in> set ''123456789''"

text \<open>
  The \<open>switch\<close> at the label \<open>reswitch\<close> is read in two steps. \<open>classify\<close>
  says what the character is, in the order of the \<open>case\<close> labels: a flag or length
  modifier, which changes the directive and goes back to \<open>reswitch\<close>; \<open>%\<close>;
  \<open>*\<close>; the first digit of a number; a conversion; or anything else, the
  \<open>default\<close> case. \<open>kv_convert\<close> is the body of each conversion, up to its
  \<open>break\<close>.
\<close>

datatype conversion = Cb | Cc | CD | Cd | Cn | Co | Cp | Cr | Cs | Cu | CX | Cx | Cy

datatype token = Flag directive | Percent | Star | Digits | Conv conversion | Unknown

definition classify :: "char \<Rightarrow> directive \<Rightarrow> token" where
  "classify ch d =
     (if ch = CHR ''.'' then Flag (d\<lparr> dot := True \<rparr>)
      else if ch = CHR ''#'' then Flag (d\<lparr> sharpflag := True \<rparr>)
      else if ch = CHR ''+'' then Flag (d\<lparr> sign := True \<rparr>)
      else if ch = CHR ''-'' then Flag (d\<lparr> ladjust := True \<rparr>)
      else if ch = CHR ''%'' then Percent
      else if ch = CHR ''*'' then Star
      else if ch = CHR ''0'' \<and> \<not> dot d then Flag (d\<lparr> padc := CHR ''0'' \<rparr>)
      else if ch = CHR ''0'' \<or> is_digit19 ch then Digits
      else if ch = CHR ''b'' then Conv Cb
      else if ch = CHR ''c'' then Conv Cc
      else if ch = CHR ''D'' then Conv CD
      else if ch = CHR ''d'' \<or> ch = CHR ''i'' then Conv Cd
      else if ch = CHR ''h'' then
        Flag (if hflag d then d\<lparr> hflag := False, cflag := True \<rparr> else d\<lparr> hflag := True \<rparr>)
      else if ch = CHR ''j'' then Flag (d\<lparr> jflag := True \<rparr>)
      else if ch = CHR ''l'' then Flag (d\<lparr> lflag := True \<rparr>)
      else if ch = CHR ''n'' then Conv Cn
      else if ch = CHR ''o'' then Conv Co
      else if ch = CHR ''p'' then Conv Cp
      else if ch = CHR ''r'' then Conv Cr
      else if ch = CHR ''s'' then Conv Cs
      else if ch = CHR ''t'' then Flag (d\<lparr> tflag := True \<rparr>)
      else if ch = CHR ''u'' then Conv Cu
      else if ch = CHR ''X'' then Conv CX
      else if ch = CHR ''x'' then Conv Cx
      else if ch = CHR ''y'' then Conv Cy
      else if ch = CHR ''z'' then Flag (d\<lparr> zflag := True \<rparr>)
      else Unknown)"

fun kv_convert ::
  "(char \<Rightarrow> 's \<Rightarrow> 's) \<Rightarrow> int \<Rightarrow> conversion \<Rightarrow> directive \<Rightarrow> 's kv_state \<Rightarrow> fault + 's kv_state"
where
  "kv_convert func radix Cb d st =
     kv_handle_nosign func (d\<lparr> ladjust := True \<rparr>) 0 False True st"
| "kv_convert func radix Cc d st = kv_char func d st"
| "kv_convert func radix CD d st = kv_dump func d st"
| "kv_convert func radix Cd d st = kv_handle_sign func (d\<lparr> sign := True \<rparr>) 10 st"
| "kv_convert func radix Cn d st = kv_count d st"
| "kv_convert func radix Co d st = kv_handle_nosign func d 8 False False st"
| "kv_convert func radix Cp d st = kv_pointer func d st"
| "kv_convert func radix Cr d st =
     (if sign d then kv_handle_sign func d radix st
      else kv_handle_nosign func d radix False False st)"
| "kv_convert func radix Cs d st = kv_string func d st"
| "kv_convert func radix Cu d st = kv_handle_nosign func d 10 False False st"
| "kv_convert func radix CX d st = kv_handle_nosign func d 16 True False st"
| "kv_convert func radix Cx d st = kv_handle_nosign func d 16 False False st"
| "kv_convert func radix Cy d st = kv_handle_sign func (d\<lparr> sign := True \<rparr>) 16 st"

text \<open>\<open>*\<close>: the next argument is the width, or after a dot the precision; a negative
  width flips the justification.\<close>

definition star_arg :: "directive \<Rightarrow> u32 \<Rightarrow> directive" where
  "star_arg d v =
     (if \<not> dot d then
        (if sint v < 0 then d\<lparr> ladjust := \<not> ladjust d, width := int32 (- sint v) \<rparr>
         else d\<lparr> width := sint v \<rparr>)
      else d\<lparr> dwidth := sint v \<rparr>)"

text \<open>
  The two states of the engine. \<open>kv_loop\<close> copies literal text up to a \<open>%\<close> (or to
  the end once \<open>stop\<close> is set); \<open>kv_reswitch\<close> reads one character of a directive,
  with \<open>percent\<close> the text of the directive read so far. The format is the bytes
  before its terminating NUL; the empty list is the terminator. When the terminator is
  met inside a directive, the \<open>default\<close> case takes it, and the loop then reads on
  past the end of the string.
\<close>

function (sequential)
  kv_loop :: "(char \<Rightarrow> 's \<Rightarrow> 's) \<Rightarrow> int \<Rightarrow> string \<Rightarrow> 's kv_state \<Rightarrow> fault + 's kv_state"
and
  kv_reswitch ::
    "(char \<Rightarrow> 's \<Rightarrow> 's) \<Rightarrow> int \<Rightarrow> string \<Rightarrow> directive \<Rightarrow> string \<Rightarrow> 's kv_state \<Rightarrow>
     fault + 's kv_state"
where
  "kv_loop func radix [] st = Inr st"
| "kv_loop func radix (ch # fmt) st =
     (if ch \<noteq> CHR ''%'' \<or> stop st then
        (if ch = NUL then Inr st else kv_loop func radix fmt (PCHAR func ch st))
      else kv_reswitch func radix [ch] directive_init fmt st)"
| "kv_reswitch func radix percent d [] st = Inl ReadOverrun"
| "kv_reswitch func radix percent d (ch # fmt) st =
     (case classify ch d of
        Flag d' \<Rightarrow> kv_reswitch func radix (percent @ [ch]) d' fmt st
      | Percent \<Rightarrow> kv_loop func radix fmt (PCHAR func ch st)
      | Star \<Rightarrow>
          (case va_int (ap st) of
             Inl e \<Rightarrow> Inl e
           | Inr (v, rest) \<Rightarrow>
               kv_reswitch func radix (percent @ [ch]) (star_arg d v) fmt (st\<lparr> ap := rest \<rparr>))
      | Digits \<Rightarrow>
          kv_reswitch func radix (percent @ ch # take (snd (kv_digits 0 ch fmt)) fmt)
            (if dot d then d\<lparr> dwidth := fst (kv_digits 0 ch fmt) \<rparr>
             else d\<lparr> width := fst (kv_digits 0 ch fmt) \<rparr>)
            (drop (snd (kv_digits 0 ch fmt)) fmt) st
      | Conv c \<Rightarrow>
          (case kv_convert func radix c d st of
             Inl e \<Rightarrow> Inl e
           | Inr st' \<Rightarrow> kv_loop func radix fmt st')
      | Unknown \<Rightarrow>
          kv_loop func radix fmt ((PCHARs func (percent @ [ch]) st)\<lparr> stop := True \<rparr>))"
  by pat_completeness auto
termination
  by (relation "measure (\<lambda>x. case x of
          Inl (func, radix, fmt, st) \<Rightarrow> length fmt
        | Inr (func, radix, percent, d, fmt, st) \<Rightarrow> length fmt)")
     auto

declare kv_reswitch.simps(2) [simp del]

text \<open>
  \<open>kvprintf\<close>. A \<open>NULL\<close> format is replaced by a fixed text and a radix outside
  2..36 by 10, before anything is read. The result is the final state: \<open>retval\<close> is
  the value returned, \<open>sink\<close> what the calls of \<open>func\<close> made of \<open>arg\<close>.
\<close>

definition kvprintf ::
  "string option \<Rightarrow> (char \<Rightarrow> 's \<Rightarrow> 's) \<Rightarrow> 's \<Rightarrow> int \<Rightarrow> va_value list \<Rightarrow> fault + 's kv_state"
where
  "kvprintf fmt func arg radix ap0 =
     kv_loop func (if radix < 2 \<or> radix > 36 then 10 else radix)
       (case fmt of None \<Rightarrow> ''(fmt null)'' @ [CHR 0x0A] | Some f \<Rightarrow> f)
       \<lparr> ap = ap0, sink = arg, retval = 0, stop = False, stored = [] \<rparr>"

text \<open>The sink that keeps every character, and the full rendering it gives.\<close>

definition collect :: "char \<Rightarrow> string \<Rightarrow> string" where
  "collect c out = out @ [c]"

definition render :: "string \<Rightarrow> int \<Rightarrow> va_value list \<Rightarrow> fault + (int \<times> string)" where
  "render fmt radix ap0 =
     (case kvprintf (Some fmt) collect [] radix ap0 of
        Inl e \<Rightarrow> Inl e | Inr st \<Rightarrow> Inr (retval st, sink st))"

text \<open>A state with another sink in place of its own.\<close>

definition with_sink :: "('a \<Rightarrow> 'b) \<Rightarrow> 'a kv_state \<Rightarrow> 'b kv_state" where
  "with_sink G s =
     \<lparr> ap = ap s, sink = G (sink s), retval = retval s, stop = stop s, stored = stored s \<rparr>"

subsection \<open>The bounded sink: \<open>snprintf_func\<close>, \<open>vsnprintf\<close>, \<open>vsnrprintf\<close>\<close>

text \<open>
  \<open>struct snprintf_arg\<close>, together with the memory its \<open>str\<close> points into:
  \<open>mem\<close> is the destination from the caller's \<open>str\<close> on, and the field \<open>str\<close> is
  how far \<open>info.str\<close> has advanced in it.
\<close>

record snprintf_arg =
  mem :: "char list"
  str :: nat
  remain :: nat

definition snprintf_func :: "char \<Rightarrow> snprintf_arg \<Rightarrow> snprintf_arg" where
  "snprintf_func ch info =
     (if remain info \<ge> 2
      then info\<lparr> mem := (mem info)[str info := ch], str := str info + 1,
                 remain := remain info - 1 \<rparr>
      else info)"

text \<open>Both return \<open>retval\<close> and leave the destination as the second component;
  \<open>sz\<close> is the parameter \<open>size\<close>.\<close>

definition vsnrprintf ::
  "char list \<Rightarrow> nat \<Rightarrow> int \<Rightarrow> string option \<Rightarrow> va_value list \<Rightarrow> fault + (int \<times> char list)"
where
  "vsnrprintf dst sz radix format ap0 =
     (case kvprintf format snprintf_func \<lparr> mem = dst, str = 0, remain = sz \<rparr> radix ap0 of
        Inl e \<Rightarrow> Inl e
      | Inr st \<Rightarrow>
          Inr (retval st,
               if remain (sink st) \<ge> 1 then (mem (sink st))[str (sink st) := NUL]
               else mem (sink st)))"

definition vsnprintf ::
  "char list \<Rightarrow> nat \<Rightarrow> string option \<Rightarrow> va_value list \<Rightarrow> fault + (int \<times> char list)"
where
  "vsnprintf dst sz format ap0 =
     (case kvprintf format snprintf_func \<lparr> mem = dst, str = 0, remain = sz \<rparr> 10 ap0 of
        Inl e \<Rightarrow> Inl e
      | Inr st \<Rightarrow>
          Inr (retval st,
               if remain (sink st) \<ge> 1 then (mem (sink st))[str (sink st) := NUL]
               else mem (sink st)))"

text \<open>A sink that counts beside collecting; it serves to relate \<open>retval\<close> to the
  length of the output.\<close>

definition count_sink :: "char \<Rightarrow> string \<times> int \<Rightarrow> string \<times> int" where
  "count_sink c p = (collect c (fst p), int32 (snd p + 1))"

subsection \<open>Relating two sinks\<close>

text \<open>
  \<open>H\<close> maps the states of a run with the sink function \<open>f\<close> to those of a run with
  \<open>func\<close>: it leaves every field but the sink alone and commutes with \<open>PCHAR\<close>.
\<close>

definition sim :: "('a kv_state \<Rightarrow> 'b kv_state) \<Rightarrow> (char \<Rightarrow> 'a \<Rightarrow> 'a) \<Rightarrow> (char \<Rightarrow> 'b \<Rightarrow> 'b) \<Rightarrow> bool" where
  "sim H f func \<longleftrightarrow>
     (\<forall>s. ap (H s) = ap s \<and> retval (H s) = retval s \<and> stop (H s) = stop s
          \<and> stored (H s) = stored s)
     \<and> (\<forall>s x. H (s\<lparr> ap := x \<rparr>) = (H s)\<lparr> ap := x \<rparr>)
     \<and> (\<forall>s x. H (s\<lparr> stop := x \<rparr>) = (H s)\<lparr> stop := x \<rparr>)
     \<and> (\<forall>s y. H (s\<lparr> stored := y \<rparr>) = (H s)\<lparr> stored := y \<rparr>)
     \<and> (\<forall>s c. H (PCHAR f c s) = PCHAR func c (H s))"

text \<open>A result carried over: a fault stays, a final state is mapped.\<close>

abbreviation lift :: "('a \<Rightarrow> 'b) \<Rightarrow> fault + 'a \<Rightarrow> fault + 'b" where
  "lift H \<equiv> map_sum id H"

subsection \<open>The parts of a signed decimal field\<close>

text \<open>
  The two pieces \<open>%d\<close> makes of its argument \<open>v\<close> under the length modifiers of the
  directive \<open>d\<close>: the sign character, present when the value fetched is negative as an
  \<open>int\<close>, and the digits \<open>ksprintn\<close> stores for its magnitude, in the order they are
  written out.
\<close>

definition decimal_sign :: "directive \<Rightarrow> u32 \<Rightarrow> string" where
  "decimal_sign d v = (if sint (fetch_sign d v) < 0 then ''-'' else [])"

definition decimal_digits :: "directive \<Rightarrow> u32 \<Rightarrow> string" where
  "decimal_digits d v =
     rev (ksprintn_10 (if sint (fetch_sign d v) < 0 then - fetch_sign d v else fetch_sign d v)
            False)"

text \<open>The field the specification describes for a zero-padded \<open>%d\<close>: the sign, then
  zeros up to the width, then the digits.\<close>

definition zero_padded_field :: "directive \<Rightarrow> u32 \<Rightarrow> string" where
  "zero_padded_field d v =
     decimal_sign d v
     @ replicate (nat (width d) - length (decimal_sign d v @ decimal_digits d v)) (CHR ''0'')
     @ decimal_digits d v"


section \<open>Reading the rendered text back\<close>

text \<open>
  The notions the properties below are stated with. None of them is part of the program:
  they describe the text \<open>float_to_string\<close> produces, \<open>[-]d.ddd\<close> followed by
  \<open>x2^\<close> and a signed decimal exponent, and the value of a single-precision bit pattern.
\<close>

definition is_dec_digit :: "char \<Rightarrow> bool" where
  "is_dec_digit c \<longleftrightarrow> c \<in> set ''0123456789''"

text \<open>The exponent text: what follows the \<open>^\<close>.\<close>

definition exponent_text :: "string \<Rightarrow> string" where
  "exponent_text s = drop 1 (dropWhile (\<lambda>c. c \<noteq> CHR ''^'') s)"

text \<open>The coefficient text: what precedes the \<open>x\<close>.\<close>

definition coefficient_text :: "string \<Rightarrow> string" where
  "coefficient_text s = takeWhile (\<lambda>c. c \<noteq> CHR ''x'') s"

text \<open>The digit before the decimal point, after the sign if there is one.\<close>

definition leading_digit :: "string \<Rightarrow> char" where
  "leading_digit s = (if take 1 s = ''-'' then s ! 1 else s ! 0)"

text \<open>The carry flag \<open>exponent_add_1\<close> that \<open>mantissa_to_string\<close> hands back for the
  mantissa of \<open>in_float\<close>; it does not depend on the buffer.\<close>

definition carry_flag :: "u32 \<Rightarrow> nat \<Rightarrow> 8 word" where
  "carry_flag in_float d =
     fst (mantissa_to_string (fs_mantissa (float_struct_of in_float)) d 0 2 (replicate 11 NUL))"

text \<open>The coefficient buffer of a denormal just before \<open>x2^\<close> is appended to it.\<close>

definition coefficient_buffer :: "u32 \<Rightarrow> nat \<Rightarrow> char list \<Rightarrow> char list" where
  "coefficient_buffer f d tm =
     (let mbuf0 = snd (mantissa_to_string (fs_mantissa (float_struct_of f)) d 0
                         (if fs_sign (float_struct_of f) \<noteq> 0 then 3 else 2) tm)
      in if fs_sign (float_struct_of f) \<noteq> 0 then
           (if carry_flag f d = 0
            then mbuf0[0 := CHR ''-'', 1 := CHR ''0'', 2 := CHR ''.'']
            else mbuf0[0 := CHR ''-'', 1 := CHR ''1'', 2 := CHR ''.''])
         else
           (if carry_flag f d = 0
            then mbuf0[0 := CHR ''0'', 1 := CHR ''.'']
            else mbuf0[0 := CHR ''1'', 1 := CHR ''.'']))"

text \<open>Decimal text as a number.\<close>

definition digit_value :: "char \<Rightarrow> nat" where
  "digit_value c = of_char c - 48"

definition decimal_value :: "string \<Rightarrow> nat" where
  "decimal_value s = foldl (\<lambda>a c. 10 * a + digit_value c) 0 s"

definition signed_decimal_value :: "string \<Rightarrow> int" where
  "signed_decimal_value s =
     (if take 1 s = ''-'' then - int (decimal_value (drop 1 s)) else int (decimal_value s))"

text \<open>The value of a coefficient text \<open>[-]d.ddd\<close>.\<close>

definition coefficient_value :: "string \<Rightarrow> real" where
  "coefficient_value s =
     (let body = (if take 1 s = ''-'' then drop 1 s else s);
          ipart = takeWhile (\<lambda>c. c \<noteq> CHR ''.'') body;
          fpart = drop 1 (dropWhile (\<lambda>c. c \<noteq> CHR ''.'') body);
          v = real (decimal_value ipart) + real (decimal_value fpart) / 10 ^ length fpart
      in if take 1 s = ''-'' then - v else v)"

text \<open>The reconstruction of a rendered float: coefficient times two to the exponent.\<close>

definition reconstruction :: "string \<Rightarrow> real" where
  "reconstruction s =
     coefficient_value (coefficient_text s) * 2 powi signed_decimal_value (exponent_text s)"

text \<open>The value of the bit pattern of a normal single-precision number.\<close>

definition normal_float_value :: "u32 \<Rightarrow> real" where
  "normal_float_value f =
     (if fs_sign (float_struct_of f) \<noteq> 0 then -1 else 1)
     * (1 + real (unat (fs_mantissa (float_struct_of f))) / 2 ^ 23)
     * 2 powi (uint (fs_exponent (float_struct_of f)) - 127)"


section \<open>Properties of simple\_print.c\<close>

subsection \<open>Unfolding the counted loops at numerals, and buffers of a known length\<close>

lemmas int_to_string_loop_numeral [simp] =
  int_to_string_loop.simps(2) [of "pred_numeral k", unfolded numeral_eq_Suc [symmetric]] for k

lemmas all_zeroes_numeral [simp] =
  all_zeroes.simps(2) [of "pred_numeral k", unfolded numeral_eq_Suc [symmetric]] for k

lemmas mantissa_digits_numeral [simp] =
  mantissa_digits.simps(2) [of "pred_numeral k", unfolded numeral_eq_Suc [symmetric]] for k

lemmas sillypow_numeral [simp] =
  sillypow.simps(2) [of "pred_numeral k", unfolded numeral_eq_Suc [symmetric]] for k

lemma list_update_numeral_Cons [simp]:
  "(x # xs)[numeral k := y] = x # xs[pred_numeral k := y]"
  by (simp add: numeral_eq_Suc)

lemma len_ge5:
  "5 \<le> length (xs::'a list) \<Longrightarrow> \<exists>a0 a1 a2 a3 a4 rest. xs = a0#a1#a2#a3#a4#rest"
  by (auto simp: Suc_le_length_iff eval_nat_numeral)

lemma len_ge12:
  "12 \<le> length (xs::'a list) \<Longrightarrow>
   \<exists>a0 a1 a2 a3 a4 a5 a6 a7 a8 a9 a10 a11 rest.
     xs = a0#a1#a2#a3#a4#a5#a6#a7#a8#a9#a10#a11#rest"
  by (auto simp: Suc_le_length_iff eval_nat_numeral)

lemma len_ge13:
  "13 \<le> length (xs::'a list) \<Longrightarrow>
   \<exists>a0 a1 a2 a3 a4 a5 a6 a7 a8 a9 a10 a11 a12 rest.
     xs = a0#a1#a2#a3#a4#a5#a6#a7#a8#a9#a10#a11#a12#rest"
  by (auto simp: Suc_le_length_iff eval_nat_numeral)

lemma len_eq11:
  "length (xs::'a list) = 11 \<Longrightarrow>
   \<exists>a0 a1 a2 a3 a4 a5 a6 a7 a8 a9 a10. xs = [a0,a1,a2,a3,a4,a5,a6,a7,a8,a9,a10]"
  by (auto simp: length_Suc_conv eval_nat_numeral)

lemma len_eq12:
  "length (xs::'a list) = 12 \<Longrightarrow>
   \<exists>a0 a1 a2 a3 a4 a5 a6 a7 a8 a9 a10 a11. xs = [a0,a1,a2,a3,a4,a5,a6,a7,a8,a9,a10,a11]"
  by (auto simp: length_Suc_conv eval_nat_numeral)

subsection \<open>Reading a C string out of a buffer\<close>

lemma cstring_append_NUL:
  "NUL \<notin> set p \<Longrightarrow> cstring (p @ NUL # rest) = p"
  by (induction p) (auto simp: cstring_def)

lemma stringlength_cstring: "stringlength buf = length (cstring buf)"
  by (induction buf) (auto simp: cstring_def)

lemma cstring_split:
  "NUL \<in> set buf \<Longrightarrow> buf = cstring buf @ NUL # drop (Suc (length (cstring buf))) buf"
  by (induction buf) (auto simp: cstring_def)

lemma cstring_no_NUL: "NUL \<notin> set (cstring buf)"
  by (induction buf) (auto simp: cstring_def)

lemma stringlength_append_NUL: "NUL \<notin> set p \<Longrightarrow> stringlength (p @ NUL # r) = length p"
  by (induction p) auto

text \<open>\<open>append_string\<close> concatenates the two C strings, when the destination has room
  for both and the terminator.\<close>

lemma cstring_append_string:
  assumes n1: "NUL \<in> set string1" and n2: "NUL \<in> set string2"
    and len: "stringlength string1 + stringlength string2 + 1 \<le> length out_string"
  shows "map_option cstring (append_string string1 string2 out_string) =
         Some (cstring string1 @ cstring string2)"
proof -
  define p where "p = cstring string1"
  define q where "q = cstring string2"
  obtain r1 where s1: "string1 = p @ NUL # r1"
    using cstring_split [OF n1] p_def by blast
  obtain r2 where s2: "string2 = q @ NUL # r2"
    using cstring_split [OF n2] q_def by blast
  have l1: "stringlength string1 = length p" and l2: "stringlength string2 = length q"
    by (simp_all add: stringlength_cstring p_def q_def)
  have t1: "take (length p) string1 = p" by (simp add: s1)
  have t2: "take (length q + 1) string2 = q @ [NUL]" by (simp add: s2)
  from len l1 l2 have lo: "length p + length q + 1 \<le> length out_string" by simp
  have ls: "min (length string1) (length p) = length p"
    "min (length string2) (length q + 1) = length q + 1"
    by (simp_all add: s1 s2)
  have b1: "length p \<le> length string1" and b2: "length q + 1 \<le> length string2"
    by (simp_all add: s1 s2)
  from lo have b3: "length p \<le> length out_string" by simp
  have m1: "memmove out_string 0 string1 0 (length p) = Some (p @ drop (length p) out_string)"
    using b1 b3 by (simp add: memmove_def t1)
  have m2: "memmove (p @ drop (length p) out_string) (length p) string2 0 (length q + 1) =
            Some (p @ (q @ [NUL]) @ drop (length p + (length q + 1)) out_string)"
    using b2 lo
    by (simp add: memmove_def t2 add.commute [of "length q + 1" "length p"] del: One_nat_def)
  have "append_string string1 string2 out_string =
          Some (p @ q @ NUL # drop (length p + length q + 1) out_string)"
    by (simp add: append_string_def Let_def l1 l2 m1 m2 add.assoc del: One_nat_def)
  moreover have "NUL \<notin> set (p @ q)"
    using cstring_no_NUL by (simp add: p_def q_def)
  ultimately show ?thesis
    using cstring_append_NUL [of "p @ q"] by (simp add: p_def q_def)
qed

subsection \<open>The minimum 32-bit value\<close>

text \<open>
  Claim C4. \<open>int_to_string\<close> applied to \<open>-2147483648\<close> leaves the text
  \<open>-2147483648\<close> in any buffer of at least the documented 12 bytes. Every digit is
  the negated remainder of the still negative value; the value itself is only divided.
\<close>

theorem int_to_string_min_value:
  assumes "12 \<le> length out_string"
  shows "map_option cstring (int_to_string (- 2147483648) out_string) = Some ''-2147483648''"
proof -
  from len_ge12 [OF assms] obtain a0 a1 a2 a3 a4 a5 a6 a7 a8 a9 a10 a11 rest where
    "out_string = a0#a1#a2#a3#a4#a5#a6#a7#a8#a9#a10#a11#rest"
    by blast
  then show ?thesis
    by (simp add: int_to_string_def signed_divide_int_def signed_modulo_int_def
        dec_hex_data_def cstring_def)
qed

theorem int_to_string_min_value_witness:
  "12 \<le> length (replicate 12 (CHR ''#''))
   \<and> map_option cstring (int_to_string (- 2147483648) (replicate 12 (CHR ''#''))) =
       Some ''-2147483648''"
  using int_to_string_min_value [of "replicate 12 (CHR ''#'')"] by simp

subsection \<open>Special values\<close>

text \<open>
  Claim C5. For 1 to 3 decimal digits and a buffer of the documented size,
  \<open>float_to_string\<close> renders every NaN as \<open>NaN\<close>, both zeroes as \<open>0.0\<close>,
  negative infinity as \<open>-Inf\<close> and positive infinity as \<open>Inf\<close>. The NaN test comes
  first, so a NaN with the sign bit set is still \<open>NaN\<close>.
\<close>

theorem float_to_string_special_values:
  assumes "1 \<le> d" and "d \<le> 3" and "11 + d \<le> length out_string"
  shows "(compare_isnan f \<longrightarrow> map_option (\<lambda>r. cstring (fst r)) (float_to_string f d out_string st) = Some ''NaN'')
       \<and> (f = 0 \<or> f = 0x80000000 \<longrightarrow>
            map_option (\<lambda>r. cstring (fst r)) (float_to_string f d out_string st) = Some ''0.0'')
       \<and> (f = 0xFF800000 \<longrightarrow> map_option (\<lambda>r. cstring (fst r)) (float_to_string f d out_string st) = Some ''-Inf'')
       \<and> (f = 0x7F800000 \<longrightarrow> map_option (\<lambda>r. cstring (fst r)) (float_to_string f d out_string st) = Some ''Inf'')"
proof -
  from assms have "5 \<le> length out_string" by simp
  from len_ge5 [OF this] obtain a0 a1 a2 a3 a4 rest where
    out: "out_string = a0#a1#a2#a3#a4#rest" by blast
  have nan: "compare_isnan f \<Longrightarrow> map_option (\<lambda>r. cstring (fst r)) (float_to_string f d out_string st) = Some ''NaN''"
    by (simp add: float_to_string_def out cstring_def)
  have zero: "f = 0 \<or> f = 0x80000000 \<Longrightarrow>
      map_option (\<lambda>r. cstring (fst r)) (float_to_string f d out_string st) = Some ''0.0''"
    by (auto simp add: float_to_string_def out cstring_def compare_isnan_def float_eq_zero_def)
  have ninf: "f = 0xFF800000 \<Longrightarrow>
      map_option (\<lambda>r. cstring (fst r)) (float_to_string f d out_string st) = Some ''-Inf''"
    by (simp add: float_to_string_def out cstring_def compare_isnan_def float_eq_zero_def
        float_struct_of_def)
  have pinf: "f = 0x7F800000 \<Longrightarrow>
      map_option (\<lambda>r. cstring (fst r)) (float_to_string f d out_string st) = Some ''Inf''"
    by (simp add: float_to_string_def out cstring_def compare_isnan_def float_eq_zero_def
        float_struct_of_def)
  from nan zero ninf pinf show ?thesis by blast
qed

theorem float_to_string_special_values_witness:
  "compare_isnan 0xFFC00001
   \<and> map_option (\<lambda>r. cstring (fst r))
        (float_to_string 0xFFC00001 1 (replicate 12 (CHR ''#'')) (float_statics_init [])) = Some ''NaN''
   \<and> map_option (\<lambda>r. cstring (fst r))
        (float_to_string 0x80000000 2 (replicate 13 (CHR ''#'')) (float_statics_init [])) = Some ''0.0''
   \<and> map_option (\<lambda>r. cstring (fst r))
        (float_to_string 0xFF800000 3 (replicate 14 (CHR ''#'')) (float_statics_init [])) = Some ''-Inf''
   \<and> map_option (\<lambda>r. cstring (fst r))
        (float_to_string 0x7F800000 3 (replicate 14 (CHR ''#'')) (float_statics_init [])) = Some ''Inf''"
  using float_to_string_special_values [of 1 "replicate 12 (CHR ''#'')" "0xFFC00001" "float_statics_init []"]
    float_to_string_special_values [of 2 "replicate 13 (CHR ''#'')" "0x80000000" "float_statics_init []"]
    float_to_string_special_values [of 3 "replicate 14 (CHR ''#'')" "0xFF800000" "float_statics_init []"]
    float_to_string_special_values [of 3 "replicate 14 (CHR ''#'')" "0x7F800000" "float_statics_init []"]
  by (simp add: compare_isnan_def)

subsection \<open>The value 5.0\<close>

lemma five_bits: "normal_float_value 0x40A00000 = 5"
  by (simp add: normal_float_value_def float_struct_of_def power_int_def)

lemma five_text_value: "reconstruction ''1.250x2^2'' = 5"
  by (simp add: reconstruction_def coefficient_value_def coefficient_text_def exponent_text_def
      signed_decimal_value_def decimal_value_def digit_value_def power_int_def)

lemma mantissa_bits_five: "mantissa_bits 22 0x200000 5 0 = 250000000"
  by code_simp

lemma mantissa_to_string_five:
  "mantissa_to_string 0x200000 3 0 2 [c0,c1,c2,c3,c4,c5,c6,c7,c8,c9,c10] =
     (0, [c0,c1,CHR ''2'',CHR ''5'',CHR ''0'',NUL,c6,c7,c8,c9,c10])"
  by (simp add: mantissa_to_string_def mantissa_bits_five dec_hex_data_def)

lemma int_to_string_two:
  "int_to_string 2 (b0#b1#b2#b3#b4#b5#b6#b7#b8#b9#b10#b11#b12#rest) =
     Some (CHR ''2''#NUL#b12#b3#b4#b5#b6#b7#b8#b9#CHR ''2''#NUL#b12#rest)"
  by (simp add: int_to_string_def signed_divide_int_def signed_modulo_int_def dec_hex_data_def
      memmove_def)

text \<open>The byte behind the buffer is read: with twelve bytes of memory and no more the
  call is undefined, and with a thirteenth that byte is copied to the front.\<close>

lemma int_to_string_reads_behind:
  "int_to_string 5 ''ABCDEFGHIJKL'' = None"
  "int_to_string 5 ''ABCDEFGHIJKLM'' =
     Some ([CHR ''5'', NUL] @ ''MDEFGHIJ5'' @ [NUL] @ ''M'')"
  by (simp_all add: int_to_string_def signed_divide_int_def signed_modulo_int_def
      dec_hex_data_def memmove_def)

text \<open>
  Claim C6. The bit pattern \<open>0x40A00000\<close> is 5.0. With three decimal digits
  \<open>float_to_string\<close> renders it as \<open>1.250x2^2\<close>, whatever the buffers held
  before, and the coefficient times two to the exponent is within 0.002 of 5.0 (here it
  is 5.0 exactly). The memory at \<open>temp_buffer_exp\<close> has the 12 bytes of the array and
  at least the one byte behind them that \<open>int_to_string\<close> reads.
\<close>

theorem float_to_string_five:
  assumes "14 \<le> length out_string" and "13 \<le> length (temp_buffer_exp st)"
    and "length (temp_buffer_mant st) = 11"
  shows "normal_float_value 0x40A00000 = 5
       \<and> map_option (\<lambda>r. cstring (fst r)) (float_to_string 0x40A00000 3 out_string st) =
           Some ''1.250x2^2''
       \<and> map_option (\<lambda>r. \<bar>reconstruction (cstring (fst r)) - 5\<bar> \<le> 2 / 1000)
             (float_to_string 0x40A00000 3 out_string st) = Some True"
proof -
  from assms have "12 \<le> length out_string" by simp
  from len_ge12 [OF this] obtain a0 a1 a2 a3 a4 a5 a6 a7 a8 a9 a10 a11 rest where
    out: "out_string = a0#a1#a2#a3#a4#a5#a6#a7#a8#a9#a10#a11#rest" by blast
  from len_ge13 [OF assms(2)] obtain b0 b1 b2 b3 b4 b5 b6 b7 b8 b9 b10 b11 b12 brest where
    eb: "temp_buffer_exp st = b0#b1#b2#b3#b4#b5#b6#b7#b8#b9#b10#b11#b12#brest" by blast
  from len_eq11 [OF assms(3)] obtain c0 c1 c2 c3 c4 c5 c6 c7 c8 c9 c10 where
    mb: "temp_buffer_mant st = [c0,c1,c2,c3,c4,c5,c6,c7,c8,c9,c10]" by blast
  have "\<exists>r. float_to_string 0x40A00000 3 out_string st = Some r
            \<and> cstring (fst r) = ''1.250x2^2''"
    by (simp add: float_to_string_def out eb mb compare_isnan_def float_eq_zero_def
        float_struct_of_def mantissa_to_string_five int_to_string_two Let_def
        append_string_def memmove_def cstring_def)
  then obtain r where r: "float_to_string 0x40A00000 3 out_string st = Some r"
    and txt_eq: "cstring (fst r) = ''1.250x2^2''" by blast
  show ?thesis
    unfolding r using five_bits by (simp add: txt_eq five_text_value)
qed

theorem float_to_string_five_witness:
  "14 \<le> length (replicate 14 (CHR ''#''))
   \<and> 13 \<le> length (temp_buffer_exp (float_statics_init [NUL]))
   \<and> length (temp_buffer_mant (float_statics_init [NUL])) = 11
   \<and> map_option (\<lambda>r. cstring (fst r))
        (float_to_string 0x40A00000 3 (replicate 14 (CHR ''#'')) (float_statics_init [NUL]))
       = Some ''1.250x2^2''
   \<and> map_option (\<lambda>r. \<bar>reconstruction (cstring (fst r)) - 5\<bar> \<le> 2 / 1000)
        (float_to_string 0x40A00000 3 (replicate 14 (CHR ''#'')) (float_statics_init [NUL]))
       = Some True"
  using float_to_string_five [of "replicate 14 (CHR ''#'')" "float_statics_init [NUL]"]
  by (simp add: float_statics_init_def)


subsection \<open>Denormals: the exponent text and the carry flag\<close>

text \<open>
  Claim C3 does not hold as stated. The largest denormal \<open>0x007FFFFF\<close> with two digits
  raises the carry flag, the smallest denormal \<open>0x00000001\<close> does not, and both are
  rendered with the same exponent text \<open>-126\<close>.
\<close>

theorem subnormal_exponent_counterexample:
  "fs_exponent (float_struct_of 0x007FFFFF) = 0
   \<and> fs_exponent (float_struct_of 0x00000001) = 0
   \<and> carry_flag 0x007FFFFF 2 = 1
   \<and> carry_flag 0x00000001 2 = 0
   \<and> map_option (\<lambda>r. cstring (fst r))
        (float_to_string 0x007FFFFF 2 (replicate 13 NUL) (float_statics_init []))
       = Some ''1.00x2^-126''
   \<and> map_option (\<lambda>r. cstring (fst r))
        (float_to_string 0x00000001 2 (replicate 13 NUL) (float_statics_init []))
       = Some ''0.00x2^-126''
   \<and> map_option (\<lambda>r. exponent_text (cstring (fst r)))
        (float_to_string 0x007FFFFF 2 (replicate 13 NUL) (float_statics_init [])) =
     map_option (\<lambda>r. exponent_text (cstring (fst r)))
        (float_to_string 0x00000001 2 (replicate 13 NUL) (float_statics_init []))"
  by code_simp

lemma dec_hex_data_digit: "is_dec_digit (dec_hex_data ! unat ((x::u32) mod 10))"
proof -
  have "unat (x mod 10) < 10"
    by (simp add: unat_mod_distrib)
  then have "unat (x mod 10) \<in> {0,1,2,3,4,5,6,7,8,9}" by auto
  then show ?thesis
    by (auto simp: dec_hex_data_def is_dec_digit_def)
qed

lemma is_dec_digit_zero [simp]: "is_dec_digit (CHR ''0'')"
  by (simp add: is_dec_digit_def)

lemma is_dec_digit_neq:
  "is_dec_digit c \<Longrightarrow> c \<noteq> NUL \<and> c \<noteq> CHR ''^'' \<and> c \<noteq> CHR ''x'' \<and> c \<noteq> CHR ''-'' \<and> c \<noteq> CHR ''.''"
  by (auto simp: is_dec_digit_def)

lemma mantissa_to_string_carry:
  "fst (mantissa_to_string mant d e off buf) = fst (mantissa_to_string mant d e off' buf')"
  by (simp add: mantissa_to_string_def Let_def)

lemma mantissa_to_string_carry_cases:
  "mant \<noteq> 0 \<Longrightarrow> d \<noteq> 0 \<Longrightarrow> fst (mantissa_to_string mant d 0 off buf) = 0 \<or> fst (mantissa_to_string mant d 0 off buf) = 1"
  by (simp add: mantissa_to_string_def Let_def)

lemma shape1:
  "\<exists>x. is_dec_digit x \<and>
     snd (mantissa_to_string mant 1 e 2 [c0,c1,c2,c3,c4,c5,c6,c7,c8,c9,c10]) = [c0,c1,x,NUL,c4,c5,c6,c7,c8,c9,c10] \<and>
     snd (mantissa_to_string mant 1 e 3 [c0,c1,c2,c3,c4,c5,c6,c7,c8,c9,c10]) = [c0,c1,c2,x,NUL,c5,c6,c7,c8,c9,c10]"
  using dec_hex_data_digit
  by (auto simp add: mantissa_to_string_def Let_def)

lemma shape2:
  "\<exists>x y. is_dec_digit x \<and> is_dec_digit y \<and>
     snd (mantissa_to_string mant 2 e 2 [c0,c1,c2,c3,c4,c5,c6,c7,c8,c9,c10]) = [c0,c1,x,y,NUL,c5,c6,c7,c8,c9,c10] \<and>
     snd (mantissa_to_string mant 2 e 3 [c0,c1,c2,c3,c4,c5,c6,c7,c8,c9,c10]) = [c0,c1,c2,x,y,NUL,c6,c7,c8,c9,c10]"
  using dec_hex_data_digit
  by (auto simp add: mantissa_to_string_def Let_def)

lemma shape3:
  "\<exists>x y z. is_dec_digit x \<and> is_dec_digit y \<and> is_dec_digit z \<and>
     snd (mantissa_to_string mant 3 e 2 [c0,c1,c2,c3,c4,c5,c6,c7,c8,c9,c10]) = [c0,c1,x,y,z,NUL,c6,c7,c8,c9,c10] \<and>
     snd (mantissa_to_string mant 3 e 3 [c0,c1,c2,c3,c4,c5,c6,c7,c8,c9,c10]) = [c0,c1,c2,x,y,z,NUL,c7,c8,c9,c10]"
  using dec_hex_data_digit
  by (auto simp add: mantissa_to_string_def Let_def)


lemma not_zero_float:
  assumes "fs_mantissa (float_struct_of f) \<noteq> 0"
  shows "\<not> float_eq_zero f"
proof
  assume "float_eq_zero f"
  then have z: "f AND 0x7FFFFFFF = 0" by (simp add: float_eq_zero_def)
  have "f AND 0x7FFFFF = (f AND 0x7FFFFFFF) AND 0x7FFFFF"
    by (simp add: and.assoc)
  with z have "f AND 0x7FFFFF = 0" by simp
  with assms show False by (simp add: float_struct_of_def)
qed


lemma float_to_string_denormal:
  assumes e: "fs_exponent (float_struct_of f) = 0" and m: "fs_mantissa (float_struct_of f) \<noteq> 0"
    and M: "M = coefficient_buffer f d (temp_buffer_mant st)"
  shows "map_option fst (float_to_string f d out_string st) =
     append_string (M[stringlength M := CHR ''x'', stringlength M + 1 := CHR ''2'',
                           stringlength M + 2 := CHR ''^'', stringlength M + 3 := NUL])
         ((temp_buffer_exp st)[0 := CHR ''-'', 1 := CHR ''1'', 2 := CHR ''2'',
                                         3 := CHR ''6'', 4 := NUL]) out_string"
proof -
  have n: "\<not> compare_isnan f"
    using e by (simp add: compare_isnan_def float_struct_of_def)
  have c2: "fst (mantissa_to_string (fs_mantissa (float_struct_of f)) d 0 2 (temp_buffer_mant st)) = carry_flag f d"
    unfolding carry_flag_def by (rule mantissa_to_string_carry)
  have c3: "fst (mantissa_to_string (fs_mantissa (float_struct_of f)) d 0 3 (temp_buffer_mant st)) = carry_flag f d"
    unfolding carry_flag_def by (rule mantissa_to_string_carry)
  show ?thesis
    using n not_zero_float [OF m] e c2 c3
    by (simp add: float_to_string_def Let_def split_beta M coefficient_buffer_def
        split: option.splits)
qed

lemma coefficient_suffix:
  assumes p: "NUL \<notin> set p" and r: "3 \<le> length r"
  shows "(p @ NUL # r)[stringlength (p @ NUL # r) := CHR ''x'',
            stringlength (p @ NUL # r) + 1 := CHR ''2'',
            stringlength (p @ NUL # r) + 2 := CHR ''^'',
            stringlength (p @ NUL # r) + 3 := NUL] = (p @ ''x2^'') @ NUL # drop 3 r"
proof -
  from r obtain r0 r1 r2 r' where "r = r0 # r1 # r2 # r'"
    by (auto simp: Suc_le_length_iff eval_nat_numeral)
  then show ?thesis
    by (simp add: stringlength_append_NUL [OF p] list_update_append)
qed

lemma denormal_assemble:
  assumes mb: "mbuf = p @ NUL # r" and p: "NUL \<notin> set p" and r: "3 \<le> length r"
    and eb: "12 \<le> length eb0" and out: "length p + 8 \<le> length out_string"
  shows "map_option cstring (append_string
           (mbuf[stringlength mbuf := CHR ''x'', stringlength mbuf + 1 := CHR ''2'',
                 stringlength mbuf + 2 := CHR ''^'', stringlength mbuf + 3 := NUL])
           (eb0[0 := CHR ''-'', 1 := CHR ''1'', 2 := CHR ''2'', 3 := CHR ''6'', 4 := NUL])
           out_string) = Some (p @ ''x2^-126'')"
proof -
  let ?m = "mbuf[stringlength mbuf := CHR ''x'', stringlength mbuf + 1 := CHR ''2'',
                 stringlength mbuf + 2 := CHR ''^'', stringlength mbuf + 3 := NUL]"
  let ?e = "eb0[0 := CHR ''-'', 1 := CHR ''1'', 2 := CHR ''2'', 3 := CHR ''6'', 4 := NUL]"
  have m: "?m = (p @ ''x2^'') @ NUL # drop 3 r"
    unfolding mb by (rule coefficient_suffix [OF p r])
  have pn: "NUL \<notin> set (p @ ''x2^'')" using p by simp
  have cm: "cstring ?m = p @ ''x2^''"
    unfolding m by (rule cstring_append_NUL [OF pn])
  from len_ge12 [OF eb] obtain b0 b1 b2 b3 b4 b5 b6 b7 b8 b9 b10 b11 brest where
    "eb0 = b0#b1#b2#b3#b4#b5#b6#b7#b8#b9#b10#b11#brest" by blast
  then have e: "?e = ''-126'' @ NUL # (b5#b6#b7#b8#b9#b10#b11#brest)" by simp
  have ce: "cstring ?e = ''-126''"
    unfolding e by (rule cstring_append_NUL) simp
  have n1: "NUL \<in> set ?m" unfolding m by simp
  have n2: "NUL \<in> set ?e" unfolding e by simp
  have sm: "stringlength ?m = length p + 3"
    unfolding m using stringlength_append_NUL [OF pn, of "drop 3 r"] by simp
  have se: "stringlength ?e = 4"
    unfolding e by simp
  have "stringlength ?m + stringlength ?e + 1 \<le> length out_string"
    unfolding sm se using out by simp
  from cstring_append_string [OF n1 n2 this] show ?thesis
    unfolding cm ce by simp
qed


lemma denormal_assemble':
  assumes n: "NUL \<in> set mbuf" and l: "length (cstring mbuf) + 4 \<le> length mbuf"
    and eb: "12 \<le> length eb0" and out: "length (cstring mbuf) + 8 \<le> length out_string"
  shows "map_option cstring (append_string
           (mbuf[stringlength mbuf := CHR ''x'', stringlength mbuf + 1 := CHR ''2'',
                 stringlength mbuf + 2 := CHR ''^'', stringlength mbuf + 3 := NUL])
           (eb0[0 := CHR ''-'', 1 := CHR ''1'', 2 := CHR ''2'', 3 := CHR ''6'', 4 := NUL])
           out_string) = Some (cstring mbuf @ ''x2^-126'')"
proof -
  have "3 \<le> length (drop (Suc (length (cstring mbuf))) mbuf)"
    using l by simp
  from denormal_assemble [OF cstring_split [OF n] cstring_no_NUL this eb out]
  show ?thesis .
qed

lemma dropWhile_no_caret:
  "CHR ''^'' \<notin> set ds \<Longrightarrow>
   dropWhile (\<lambda>c. c \<noteq> CHR ''^'') (ds @ ys) = dropWhile (\<lambda>c. c \<noteq> CHR ''^'') ys"
  by (induction ds) auto

text \<open>
  Claim C3, amended. For every denormal input (exponent field 0, mantissa not 0), 1 to 3
  decimal digits and buffers of the documented sizes, the exponent text is the one literal
  \<open>-126\<close> whether or not rounding raised the carry flag; the carry flag only
  switches the leading digit of the coefficient from \<open>0\<close> to \<open>1\<close>.
\<close>

theorem subnormal_exponent_text_fixed:
  assumes e: "fs_exponent (float_struct_of f) = 0" and m: "fs_mantissa (float_struct_of f) \<noteq> 0"
    and d: "1 \<le> d" "d \<le> 3" and len: "11 + d \<le> length out_string"
    and le: "12 \<le> length (temp_buffer_exp st)" and lm: "length (temp_buffer_mant st) = 11"
  shows "map_option (\<lambda>r. exponent_text (cstring (fst r))) (float_to_string f d out_string st) =
           Some ''-126''
       \<and> map_option (\<lambda>r. leading_digit (cstring (fst r))) (float_to_string f d out_string st) =
           Some (if carry_flag f d = 0 then CHR ''0'' else CHR ''1'')"
proof -
  define M where "M = coefficient_buffer f d (temp_buffer_mant st)"
  from len_eq11 [OF lm] obtain c0 c1 c2 c3 c4 c5 c6 c7 c8 c9 c10 where
    mb: "temp_buffer_mant st = [c0,c1,c2,c3,c4,c5,c6,c7,c8,c9,c10]" by blast
  have "\<exists>ds. length ds = d \<and> (\<forall>c\<in>set ds. is_dec_digit c) \<and> length M = 11 \<and> NUL \<in> set M \<and>
     cstring M = (if fs_sign (float_struct_of f) \<noteq> 0 then ''-'' else [])
                 @ [if carry_flag f d = 0 then CHR ''0'' else CHR ''1''] @ ''.'' @ ds"
  proof -
    from d have "d = 1 \<or> d = 2 \<or> d = 3" by auto
    then show ?thesis
    proof (elim disjE)
      assume d1: "d = 1"
      from shape1 [of "fs_mantissa (float_struct_of f)" 0 c0 c1 c2 c3 c4 c5 c6 c7 c8 c9 c10]
      obtain x where x: "is_dec_digit x"
        and s2: "snd (mantissa_to_string (fs_mantissa (float_struct_of f)) 1 0 2 [c0,c1,c2,c3,c4,c5,c6,c7,c8,c9,c10]) = [c0,c1,x,NUL,c4,c5,c6,c7,c8,c9,c10]"
        and s3: "snd (mantissa_to_string (fs_mantissa (float_struct_of f)) 1 0 3 [c0,c1,c2,c3,c4,c5,c6,c7,c8,c9,c10]) = [c0,c1,c2,x,NUL,c5,c6,c7,c8,c9,c10]"
        by blast
      have "length [x] = d \<and> (\<forall>c\<in>set [x]. is_dec_digit c) \<and> length M = 11 \<and> NUL \<in> set M \<and>
        cstring M = (if fs_sign (float_struct_of f) \<noteq> 0 then ''-'' else [])
                 @ [if carry_flag f d = 0 then CHR ''0'' else CHR ''1''] @ ''.'' @ [x]"
        using is_dec_digit_neq [OF x] x
        by (simp add: M_def coefficient_buffer_def mb d1 s2 [unfolded One_nat_def] s3 [unfolded One_nat_def] cstring_def)
      then show ?thesis by blast
    next
      assume d2: "d = 2"
      from shape2 [of "fs_mantissa (float_struct_of f)" 0 c0 c1 c2 c3 c4 c5 c6 c7 c8 c9 c10]
      obtain x y where x: "is_dec_digit x" and y: "is_dec_digit y"
        and s2: "snd (mantissa_to_string (fs_mantissa (float_struct_of f)) 2 0 2 [c0,c1,c2,c3,c4,c5,c6,c7,c8,c9,c10]) = [c0,c1,x,y,NUL,c5,c6,c7,c8,c9,c10]"
        and s3: "snd (mantissa_to_string (fs_mantissa (float_struct_of f)) 2 0 3 [c0,c1,c2,c3,c4,c5,c6,c7,c8,c9,c10]) = [c0,c1,c2,x,y,NUL,c6,c7,c8,c9,c10]"
        by blast
      have "length [x,y] = d \<and> (\<forall>c\<in>set [x,y]. is_dec_digit c) \<and> length M = 11 \<and> NUL \<in> set M \<and>
        cstring M = (if fs_sign (float_struct_of f) \<noteq> 0 then ''-'' else [])
                 @ [if carry_flag f d = 0 then CHR ''0'' else CHR ''1''] @ ''.'' @ [x,y]"
        using is_dec_digit_neq [OF x] is_dec_digit_neq [OF y] x y
        by (simp add: M_def coefficient_buffer_def mb d2 s2 s3 cstring_def)
      then show ?thesis by blast
    next
      assume d3: "d = 3"
      from shape3 [of "fs_mantissa (float_struct_of f)" 0 c0 c1 c2 c3 c4 c5 c6 c7 c8 c9 c10]
      obtain x y z where x: "is_dec_digit x" and y: "is_dec_digit y" and z: "is_dec_digit z"
        and s2: "snd (mantissa_to_string (fs_mantissa (float_struct_of f)) 3 0 2 [c0,c1,c2,c3,c4,c5,c6,c7,c8,c9,c10]) = [c0,c1,x,y,z,NUL,c6,c7,c8,c9,c10]"
        and s3: "snd (mantissa_to_string (fs_mantissa (float_struct_of f)) 3 0 3 [c0,c1,c2,c3,c4,c5,c6,c7,c8,c9,c10]) = [c0,c1,c2,x,y,z,NUL,c7,c8,c9,c10]"
        by blast
      have "length [x,y,z] = d \<and> (\<forall>c\<in>set [x,y,z]. is_dec_digit c) \<and> length M = 11 \<and> NUL \<in> set M \<and>
        cstring M = (if fs_sign (float_struct_of f) \<noteq> 0 then ''-'' else [])
                 @ [if carry_flag f d = 0 then CHR ''0'' else CHR ''1''] @ ''.'' @ [x,y,z]"
        using is_dec_digit_neq [OF x] is_dec_digit_neq [OF y] is_dec_digit_neq [OF z] x y z
        by (simp add: M_def coefficient_buffer_def mb d3 s2 s3 cstring_def)
      then show ?thesis by blast
    qed
  qed
  then obtain ds where ds: "length ds = d" "\<forall>c\<in>set ds. is_dec_digit c"
    and lM: "length M = 11" and nM: "NUL \<in> set M"
    and cM: "cstring M = (if fs_sign (float_struct_of f) \<noteq> 0 then ''-'' else [])
                 @ [if carry_flag f d = 0 then CHR ''0'' else CHR ''1''] @ ''.'' @ ds"
    by blast
  have l1: "length (cstring M) + 4 \<le> length M"
    using ds(1) d by (simp add: cM lM)
  have l2: "length (cstring M) + 8 \<le> length out_string"
    using ds(1) d len by (simp add: cM)
  have "map_option cstring (map_option fst (float_to_string f d out_string st)) =
        Some (cstring M @ ''x2^-126'')"
    unfolding float_to_string_denormal [OF e m M_def]
    by (rule denormal_assemble' [OF nM l1 le l2])
  then obtain r where r: "float_to_string f d out_string st = Some r"
    and res: "cstring (fst r) = cstring M @ ''x2^-126''"
    by (cases "float_to_string f d out_string st") simp_all
  have nocaret: "CHR ''^'' \<notin> set ds"
    using ds(2) is_dec_digit_neq by blast
  have "exponent_text (cstring M @ ''x2^-126'') = ''-126''"
    by (simp add: cM exponent_text_def dropWhile_no_caret [OF nocaret])
  moreover have "leading_digit (cstring M @ ''x2^-126'') =
           (if carry_flag f d = 0 then CHR ''0'' else CHR ''1'')"
    by (simp add: cM leading_digit_def)
  ultimately show ?thesis
    unfolding r by (simp add: res)
qed


theorem subnormal_exponent_text_fixed_witness:
  "fs_exponent (float_struct_of 0x807FFFFF) = 0
   \<and> fs_mantissa (float_struct_of 0x807FFFFF) \<noteq> 0
   \<and> map_option (\<lambda>r. exponent_text (cstring (fst r)))
        (float_to_string 0x807FFFFF 1 (replicate 12 (CHR ''#'')) (float_statics_init []))
       = Some ''-126''
   \<and> map_option (\<lambda>r. leading_digit (cstring (fst r)))
        (float_to_string 0x807FFFFF 1 (replicate 12 (CHR ''#'')) (float_statics_init []))
       = Some (if carry_flag 0x807FFFFF 1 = 0 then CHR ''0'' else CHR ''1'')"
  using subnormal_exponent_text_fixed
    [of "0x807FFFFF" 1 "replicate 12 (CHR ''#'')" "float_statics_init []"]
  by (simp add: float_struct_of_def float_statics_init_def)


section \<open>Properties of print.c\<close>

lemma int32_small [simp]: "- 2147483648 \<le> x \<Longrightarrow> x < 2147483648 \<Longrightarrow> int32 x = x"
  by (simp add: int32_def signed_take_bit_int_eq_self)

lemma int32_idem [simp]: "int32 (int32 x) = int32 x"
  by (simp add: int32_def)

lemma int32_add_left [simp]: "int32 (int32 x + y) = int32 (x + y)"
  unfolding int32_def by (metis signed_take_bit_add signed_take_bit_signed_take_bit min.idem)

lemma int32_add_right [simp]: "int32 (x + int32 y) = int32 (x + y)"
  using int32_add_left [of y x] by (simp add: add.commute)

lemma int32_range: "- 2147483648 \<le> int32 x \<and> int32 x < 2147483648"
  unfolding int32_def
  using signed_take_bit_int_greater_eq_minus_exp [of 31 x] signed_take_bit_int_less_exp [of 31 x]
  by simp

subsection \<open>What a run of \<open>PCHAR\<close>s does to the state\<close>

lemma PCHAR_fields [simp]:
  "ap (PCHAR func c st) = ap st"
  "stop (PCHAR func c st) = stop st"
  "stored (PCHAR func c st) = stored st"
  "sink (PCHAR func c st) = func c (sink st)"
  "retval (PCHAR func c st) = int32 (retval st + 1)"
  by (simp_all add: PCHAR_def)

lemma PCHARs_Nil [simp]: "PCHARs func [] st = st"
  by (simp add: PCHARs_def)

lemma PCHARs_Cons [simp]: "PCHARs func (c # cs) st = PCHARs func cs (PCHAR func c st)"
  by (simp add: PCHARs_def)

lemma PCHARs_append [simp]: "PCHARs func (xs @ ys) st = PCHARs func ys (PCHARs func xs st)"
  by (simp add: PCHARs_def)

lemma PCHARs_fields [simp]:
  "ap (PCHARs func cs st) = ap st"
  "stop (PCHARs func cs st) = stop st"
  "stored (PCHARs func cs st) = stored st"
  "sink (PCHARs func cs st) = fold func cs (sink st)"
  by (induction cs arbitrary: st) simp_all

lemma retval_PCHARs:
  "retval (PCHARs func cs st) = (if cs = [] then retval st else int32 (retval st + int (length cs)))"
  by (induction cs arbitrary: st) (simp_all add: algebra_simps)

subsection \<open>Simulation: the engine does not look at the sink\<close>

lemma sim_ap: "sim H f func \<Longrightarrow> ap (H s) = ap s"
  and sim_retval: "sim H f func \<Longrightarrow> retval (H s) = retval s"
  and sim_stop: "sim H f func \<Longrightarrow> stop (H s) = stop s"
  and sim_stored: "sim H f func \<Longrightarrow> stored (H s) = stored s"
  and sim_ap_update: "sim H f func \<Longrightarrow> (H s)\<lparr> ap := x \<rparr> = H (s\<lparr> ap := x \<rparr>)"
  and sim_stop_update: "sim H f func \<Longrightarrow> (H s)\<lparr> stop := b \<rparr> = H (s\<lparr> stop := b \<rparr>)"
  and sim_stored_update: "sim H f func \<Longrightarrow> (H s)\<lparr> stored := y \<rparr> = H (s\<lparr> stored := y \<rparr>)"
  and sim_PCHAR: "sim H f func \<Longrightarrow> PCHAR func c (H s) = H (PCHAR f c s)"
  by (simp_all add: sim_def)

lemmas sim_simps = sim_ap sim_retval sim_stop sim_stored sim_ap_update sim_stop_update
  sim_stored_update sim_PCHAR

lemma sim_PCHARs: "sim H f func \<Longrightarrow> PCHARs func cs (H s) = H (PCHARs f cs s)"
  by (induction cs arbitrary: s) (simp_all add: sim_PCHAR)

lemma kv_char_sim:
  assumes "sim H f func"
  shows "kv_char func d (H s) = lift H (kv_char f d s)"
proof -
  note [simp] = sim_simps [OF assms] sim_PCHARs [OF assms]
  show ?thesis
    by (simp add: kv_char_def Let_def split: sum.splits prod.splits)
qed

lemma kv_string_sim:
  assumes "sim H f func"
  shows "kv_string func d (H s) = lift H (kv_string f d s)"
proof -
  note [simp] = sim_simps [OF assms] sim_PCHARs [OF assms]
  show ?thesis
    by (simp add: kv_string_def Let_def split: sum.splits prod.splits)
qed

lemma kv_hexdump_sim:
  assumes "sim H f func"
  shows "kv_hexdump func w up p (H s) = lift H (kv_hexdump f w up p s)"
proof -
  note [simp] = sim_simps [OF assms] sim_PCHARs [OF assms]
  show ?thesis
    by (induction up arbitrary: w s p) (simp_all add: Let_def split: option.splits)
qed

lemma kv_dump_sim:
  assumes "sim H f func"
  shows "kv_dump func d (H s) = lift H (kv_dump f d s)"
proof -
  note [simp] = sim_simps [OF assms] sim_PCHARs [OF assms] kv_hexdump_sim [OF assms]
  show ?thesis
    by (simp add: kv_dump_def Let_def split: sum.splits prod.splits)
qed

lemma kv_count_sim:
  assumes "sim H f func"
  shows "kv_count d (H s) = lift H (kv_count d s)"
proof -
  note [simp] = sim_simps [OF assms]
  show ?thesis
    by (simp add: kv_count_def Let_def split: sum.splits prod.splits)
qed

lemma kv_bits_sim:
  assumes "sim H f func"
  shows "kv_bits func num tmp q (H s) = lift H (kv_bits f num tmp q s)"
proof (induction "length q" arbitrary: q s rule: less_induct)
  case less
  note [simp] = sim_simps [OF assms] sim_PCHARs [OF assms]
  show ?case
  proof (cases q)
    case Nil
    then show ?thesis by simp
  next
    case (Cons c q')
    have "length (dropWhile name_char q') < length q"
      using Cons length_dropWhile_le [of name_char q'] by simp
    note IH = less [OF this]
    show ?thesis
      by (simp add: Cons IH)
  qed
qed


lemma if_sim: "(if b then H x else H y) = H (if b then x else y)"
  by simp

lemma if_lift: "(if b then lift H x else lift H y) = lift H (if b then x else y)"
  by simp

lemma kv_number_out_sim:
  assumes "sim H f func"
  shows "kv_number_out func d neg sharp base w dw p (H s) =
         H (kv_number_out f d neg sharp base w dw p s)"
proof -
  note [simp] = sim_simps [OF assms] sim_PCHARs [OF assms]
  show ?thesis
    by (simp add: kv_number_out_def Let_def)
qed

lemma kv_number_tail_sim:
  assumes "sim H f func"
  shows "kv_number_tail func d num bconv q w (H s) =
         lift H (kv_number_tail f d num bconv q w s)"
proof -
  note [simp] = sim_simps [OF assms] sim_PCHARs [OF assms] kv_bits_sim [OF assms]
  show ?thesis
  proof (cases "bconv \<and> num \<noteq> 0")
    case False
    then have "\<not> bconv \<or> num = 0" by simp
    then show ?thesis by (auto simp add: kv_number_tail_def)
  next
    case True
    show ?thesis
    proof (cases q)
      case None
      with True show ?thesis by (simp add: kv_number_tail_def)
    next
      case (Some qs)
      show ?thesis
      proof (cases "kv_bits f num (retval s) qs s")
        case (Inl e)
        with True Some show ?thesis by (simp add: kv_number_tail_def)
      next
        case (Inr s')
        with True Some show ?thesis by (simp add: kv_number_tail_def)
      qed
    qed
  qed
qed

lemma kv_number_sim:
  assumes "sim H f func"
  shows "kv_number func d num0 base upper bconv q (H s) =
         lift H (kv_number f d num0 base upper bconv q s)"
  unfolding kv_number_def Let_def
  by (simp only: kv_number_out_sim [OF assms] kv_number_tail_sim [OF assms])

lemma kv_handle_nosign_sim:
  assumes "sim H f func"
  shows "kv_handle_nosign func d base upper bconv (H s) =
         lift H (kv_handle_nosign f d base upper bconv s)"
proof -
  note [simp] = sim_simps [OF assms] kv_number_sim [OF assms]
  show ?thesis
    by (simp add: kv_handle_nosign_def split: sum.splits prod.splits option.splits list.splits)
qed

lemma kv_handle_sign_sim:
  assumes "sim H f func"
  shows "kv_handle_sign func d base (H s) = lift H (kv_handle_sign f d base s)"
proof -
  note [simp] = sim_simps [OF assms] kv_number_sim [OF assms]
  show ?thesis
    by (simp add: kv_handle_sign_def split: sum.splits prod.splits)
qed

lemma kv_pointer_sim:
  assumes "sim H f func"
  shows "kv_pointer func d (H s) = lift H (kv_pointer f d s)"
proof -
  note [simp] = sim_simps [OF assms] kv_number_sim [OF assms]
  show ?thesis
    by (simp add: kv_pointer_def split: sum.splits prod.splits)
qed


lemma kv_convert_sim:
  assumes "sim H f func"
  shows "kv_convert func radix c d (H s) = lift H (kv_convert f radix c d s)"
  by (cases c)
     (simp_all add: kv_char_sim [OF assms] kv_string_sim [OF assms] kv_dump_sim [OF assms]
       kv_count_sim [OF assms] kv_handle_nosign_sim [OF assms] kv_handle_sign_sim [OF assms]
       kv_pointer_sim [OF assms])

lemma kv_loop_sim_aux:
  fixes H :: "'a kv_state \<Rightarrow> 'b kv_state" and func :: "char \<Rightarrow> 'b \<Rightarrow> 'b"
  shows "sim H f func \<Longrightarrow> kv_loop func radix fmt (H s) = lift H (kv_loop f radix fmt s)"
    and "sim H f func \<Longrightarrow>
         kv_reswitch func radix percent d fmt' (H s') = lift H (kv_reswitch f radix percent d fmt' s')"
proof (induction f radix fmt s and f radix percent d fmt' s' rule: kv_loop_kv_reswitch.induct)
  case (1 f radix st)
  then show ?case by simp
next
  case (2 f radix ch fmt st)
  note [simp] = sim_simps [OF "2.prems"]
  show ?case
    using 2 by simp
next
  case (3 f radix percent d st)
  then show ?case by simp
next
  case (4 f radix percent d ch fmt st)
  note S = "4.prems"
  note [simp] = sim_simps [OF S] sim_PCHARs [OF S] kv_convert_sim [OF S]
  show ?case
  proof (cases "classify ch d")
    case (Flag d')
    with "4.IH"(1) S show ?thesis by (simp add: kv_reswitch.simps(2))
  next
    case Percent
    with "4.IH"(2) S show ?thesis by (simp add: kv_reswitch.simps(2))
  next
    case Star
    show ?thesis
    proof (cases "va_int (ap st)")
      case (Inl e)
      with Star show ?thesis by (simp add: kv_reswitch.simps(2))
    next
      case (Inr vr)
      obtain v rest where vr: "vr = (v, rest)" by (cases vr)
      from "4.IH"(3) [OF Star Inr [unfolded vr] refl S] Star Inr vr
      show ?thesis by (simp add: kv_reswitch.simps(2))
    qed
  next
    case Digits
    with "4.IH"(4) S show ?thesis by (simp add: kv_reswitch.simps(2))
  next
    case (Conv c)
    show ?thesis
    proof (cases "kv_convert f radix c d st")
      case (Inl e)
      with Conv show ?thesis by (simp add: kv_reswitch.simps(2))
    next
      case (Inr st')
      from "4.IH"(5) [OF Conv Inr S] Conv Inr
      show ?thesis by (simp add: kv_reswitch.simps(2))
    qed
  next
    case Unknown
    with "4.IH"(6) S show ?thesis by (simp add: kv_reswitch.simps(2))
  qed
qed

lemma sim_with_sink:
  assumes "\<And>c out. G (f c out) = func c (G out)"
  shows "sim (with_sink G) f func"
  by (simp add: sim_def with_sink_def PCHAR_def assms)

text \<open>Every run is the full rendering, fed to the sink.\<close>

lemma kv_loop_any_sink:
  "kv_loop func radix fmt \<lparr> ap = a, sink = arg, retval = r, stop = b, stored = m \<rparr> =
   lift (with_sink (\<lambda>out. fold func out arg))
     (kv_loop collect radix fmt \<lparr> ap = a, sink = [], retval = r, stop = b, stored = m \<rparr>)"
proof -
  have "sim (with_sink (\<lambda>out. fold func out arg)) collect func"
    by (rule sim_with_sink) (simp add: collect_def)
  from kv_loop_sim_aux(1) [OF this, of radix fmt
      "\<lparr> ap = a, sink = [], retval = r, stop = b, stored = m \<rparr>"]
  show ?thesis by (simp add: with_sink_def)
qed

lemma kvprintf_any_sink:
  "kvprintf fmt func arg radix ap0 =
   lift (with_sink (\<lambda>out. fold func out arg)) (kvprintf fmt collect [] radix ap0)"
  unfolding kvprintf_def by (rule kv_loop_any_sink)


text \<open>The count the full rendering returns is its length, as a C \<open>int\<close>.\<close>

lemma kv_loop_retval:
  assumes "kv_loop collect radix fmt \<lparr> ap = a, sink = [], retval = 0, stop = b, stored = m \<rparr>
             = Inr st"
  shows "retval st = int32 (int (length (sink st)))"
proof -
  let ?s0 = "\<lparr> ap = a, sink = [], retval = 0, stop = b, stored = m \<rparr> :: string kv_state"
  let ?H1 = "\<lambda>s :: string kv_state. with_sink (\<lambda>out. (out, retval s)) s"
  let ?H2 = "with_sink (\<lambda>out :: string. (out, int32 (int (length out))))"
  have 1: "sim ?H1 collect count_sink"
    by (simp add: sim_def with_sink_def PCHAR_def count_sink_def)
  have 2: "sim ?H2 collect count_sink"
    by (rule sim_with_sink) (simp add: count_sink_def collect_def add.commute)
  have "?H1 ?s0 = ?H2 ?s0"
    by (simp add: with_sink_def)
  then have "lift ?H1 (kv_loop collect radix fmt ?s0) = lift ?H2 (kv_loop collect radix fmt ?s0)"
    using kv_loop_sim_aux(1) [OF 1, of radix fmt ?s0] kv_loop_sim_aux(1) [OF 2, of radix fmt ?s0]
    by simp
  then have "?H1 st = ?H2 st"
    using assms by simp
  then show ?thesis
    by (simp add: with_sink_def)
qed

lemma kvprintf_retval:
  "kvprintf fmt collect [] radix ap0 = Inr st \<Longrightarrow> retval st = int32 (int (length (sink st)))"
  unfolding kvprintf_def by (rule kv_loop_retval)


subsection \<open>The bounded sink\<close>

lemma fold_snprintf_func:
  assumes "r \<le> 1 \<or> i + r \<le> length m"
  shows "fold snprintf_func out \<lparr> mem = m, str = i, remain = r \<rparr> =
         \<lparr> mem = take i m @ take (r - 1) out @ drop (i + min (r - 1) (length out)) m,
           str = i + min (r - 1) (length out),
           remain = r - min (r - 1) (length out) \<rparr>"
  using assms
proof (induction out arbitrary: m i r)
  case Nil
  then show ?case by simp
next
  case (Cons c cs)
  show ?case
  proof (cases "2 \<le> r")
    case False
    then have r: "r - Suc 0 = 0" by simp
    from False have "snprintf_func c \<lparr> mem = m, str = i, remain = r \<rparr>
        = \<lparr> mem = m, str = i, remain = r \<rparr>"
      by (simp add: snprintf_func_def)
    moreover from False have "r \<le> 1 \<or> i + r \<le> length m" by simp
    ultimately show ?thesis
      using Cons.IH [of r i m] by (simp add: r)
  next
    case True
    then obtain r' where r: "r = Suc (Suc r')"
      by (metis Suc_le_D numeral_2_eq_2 Suc_le_mono)
    with Cons.prems have len: "Suc (Suc (i + r')) \<le> length m" by simp
    have step: "snprintf_func c \<lparr> mem = m, str = i, remain = r \<rparr>
        = \<lparr> mem = m[i := c], str = Suc i, remain = Suc r' \<rparr>"
      by (simp add: snprintf_func_def r)
    from len have "Suc r' \<le> 1 \<or> Suc i + Suc r' \<le> length (m[i := c])" by simp
    note IH = Cons.IH [OF this]
    from len have i: "i < length m" by simp
    have t: "take (Suc i) (m[i := c]) = take i m @ [c]"
      using i by (simp add: take_Suc_conv_app_nth)
    have d: "drop (Suc (i + min r' (length cs))) (m[i := c]) =
             drop (Suc (i + min r' (length cs))) m"
      by (simp add: drop_update_cancel)
    show ?thesis
      by (simp add: step IH t d) (simp add: r)
  qed
qed

text \<open>
  Claim C1. \<open>vsnprintf\<close> with capacity \<open>N \<ge> 1\<close> returns what the unbounded rendering
  returns, the length of the full output as a C \<open>int\<close>, whatever \<open>N\<close> is; and the
  destination holds the first \<open>N - 1\<close> characters of the full output (all of it when
  it is shorter), then one NUL, then what was there before.
\<close>

theorem vsnprintf_truncation:
  assumes "1 \<le> N" and "N \<le> length dst"
  shows "vsnprintf dst N fmt ap0 =
           lift (\<lambda>st. (int32 (int (length (sink st))),
                        take (N - 1) (sink st) @ NUL # drop (min N (Suc (length (sink st)))) dst))
             (kvprintf fmt collect [] 10 ap0)
       \<and> (\<forall>st. kvprintf fmt collect [] 10 ap0 = Inr st \<and> N - 1 < length (sink st) \<longrightarrow>
             vsnprintf dst N fmt ap0 =
               Inr (int32 (int (length (sink st))), take (N - 1) (sink st) @ NUL # drop N dst))"
proof -
  let ?full = "kvprintf fmt collect [] 10 ap0"
  let ?info = "\<lparr> mem = dst, str = 0, remain = N \<rparr>"
  have run: "kvprintf fmt snprintf_func ?info 10 ap0 =
             lift (with_sink (\<lambda>out. fold snprintf_func out ?info)) ?full"
    by (rule kvprintf_any_sink)
  have fold: "fold snprintf_func out ?info =
         \<lparr> mem = take (N - 1) out @ drop (min (N - 1) (length out)) dst,
           str = min (N - 1) (length out),
           remain = N - min (N - 1) (length out) \<rparr>" for out
    using fold_snprintf_func [of N 0 dst out] assms by simp
  have main: "vsnprintf dst N fmt ap0 =
           lift (\<lambda>st. (int32 (int (length (sink st))),
                        take (N - 1) (sink st) @ NUL # drop (min N (Suc (length (sink st)))) dst))
             ?full"
  proof (cases ?full)
    case (Inl e)
    then show ?thesis by (simp add: vsnprintf_def run)
  next
    case (Inr st)
    let ?out = "sink st"
    let ?k = "min (N - 1) (length ?out)"
    have k: "?k < N" "?k \<le> length ?out" using assms by simp_all
    have "(take (N - 1) ?out @ drop ?k dst)[?k := NUL] =
          take (N - 1) ?out @ NUL # drop (Suc ?k) dst"
    proof -
      have l: "length (take (N - 1) ?out) = ?k" by (simp add: min.commute)
      have "?k < length dst" using k(1) assms(2) by linarith
      then have "drop ?k dst \<noteq> []" by (simp only: drop_eq_Nil not_le not_False_eq_True)
      then obtain x xs where dx: "drop ?k dst = x # xs" by (cases "drop ?k dst") simp_all
      then have "xs = drop (Suc ?k) dst"
        by (metis drop_Suc list.sel(3) tl_drop)
      with dx l show ?thesis
        by (simp add: list_update_append del: length_take)
    qed
    moreover have "Suc ?k = min N (Suc (length ?out))" using assms by simp
    moreover have "1 \<le> N - ?k" using k(1) by linarith
    ultimately show ?thesis
      using Inr k assms kvprintf_retval [OF Inr]
      by (simp add: vsnprintf_def run with_sink_def fold)
  qed
  show ?thesis
  proof (intro conjI allI impI)
    show "vsnprintf dst N fmt ap0 =
           lift (\<lambda>st. (int32 (int (length (sink st))),
                        take (N - 1) (sink st) @ NUL # drop (min N (Suc (length (sink st)))) dst))
             ?full" by (rule main)
  next
    fix st assume "?full = Inr st \<and> N - 1 < length (sink st)"
    then have f: "?full = Inr st" and l: "N - 1 < length (sink st)" by simp_all
    from l assms have "min N (Suc (length (sink st))) = N" by simp
    then show "vsnprintf dst N fmt ap0 =
               Inr (int32 (int (length (sink st))), take (N - 1) (sink st) @ NUL # drop N dst)"
      by (simp add: main f)
  qed
qed

lemma render_example:
  "kvprintf (Some ''ab%dcd'') collect [] 10 [VInt 77] =
     Inr \<lparr> ap = [], sink = ''ab77cd'', retval = 6, stop = False, stored = [] \<rparr>"
  by code_simp

theorem vsnprintf_truncation_witness:
  "1 \<le> (5::nat) \<and> 5 \<le> length (replicate 5 (CHR ''#''))
   \<and> vsnprintf (replicate 5 (CHR ''#'')) 5 (Some ''ab%dcd'') [VInt 77]
       = Inr (6, ''ab77'' @ [NUL])"
  using vsnprintf_truncation [of 5 "replicate 5 (CHR ''#'')" "Some ''ab%dcd''" "[VInt 77]"]
  by (simp add: render_example)

subsection \<open>Lockout after an unknown conversion\<close>

lemma PCHAR_stop_update:
  "PCHAR func c (st\<lparr> stop := b \<rparr>) = (PCHAR func c st)\<lparr> stop := b \<rparr>"
  by (simp add: PCHAR_def)

lemma PCHARs_stop_update:
  "PCHARs func cs (st\<lparr> stop := b \<rparr>) = (PCHARs func cs st)\<lparr> stop := b \<rparr>"
  by (induction cs arbitrary: st) (simp_all add: PCHAR_stop_update)

lemma PCHARs_from_start:
  "PCHARs func cs \<lparr> ap = a, sink = s, retval = 0, stop = b, stored = m \<rparr> =
   \<lparr> ap = a, sink = fold func cs s, retval = int32 (int (length cs)), stop = b, stored = m \<rparr>"
  by (rule kv_state.equality) (simp_all add: retval_PCHARs)

text \<open>Once \<open>stop\<close> is set, the rest of the format is copied as it is, \<open>%\<close> included.\<close>

lemma kv_loop_stopped:
  "stop st \<Longrightarrow> kv_loop func radix fmt st = Inr (PCHARs func (cstring fmt) st)"
proof (induction fmt arbitrary: st)
  case Nil
  then show ?case by (simp add: cstring_def)
next
  case (Cons ch fmt)
  have "stop (PCHAR func ch st)" using Cons.prems by (simp add: PCHAR_def)
  from Cons.IH [OF this] show ?case using Cons.prems by (simp add: cstring_def)
qed

text \<open>Literal text before the first \<open>%\<close> is copied.\<close>

lemma kv_loop_literal:
  "CHR ''%'' \<notin> set pre \<Longrightarrow> NUL \<notin> set pre \<Longrightarrow>
   kv_loop func radix (pre @ fmt) st = kv_loop func radix fmt (PCHARs func pre st)"
proof (induction pre arbitrary: st)
  case Nil
  then show ?case by simp
next
  case (Cons ch pre)
  then have a: "ch \<noteq> CHR ''%''" and b: "ch \<noteq> NUL" by auto
  from Cons have "kv_loop func radix (pre @ fmt) (PCHAR func ch st) =
     kv_loop func radix fmt (PCHARs func pre (PCHAR func ch st))" by simp
  then show ?case using a b by simp
qed

lemma classify_unknown:
  "c \<notin> set ''.#+-%*0123456789bcDdihjlnoprstuXxyz'' \<Longrightarrow> classify c d = Unknown"
  by (simp add: classify_def is_digit19_def)

lemma classify_flag:
  assumes "c \<in> set ''.#+-hjltz''"
  shows "\<exists>d'. classify c d = Flag d'"
proof -
  from assms consider "c = CHR ''.''" | "c = CHR ''#''" | "c = CHR ''+''" | "c = CHR ''-''"
    | "c = CHR ''h''" | "c = CHR ''j''" | "c = CHR ''l''" | "c = CHR ''t''" | "c = CHR ''z''"
    by auto
  then show ?thesis
  proof cases
    case 1 then show ?thesis by (simp add: classify_def is_digit19_def)
  next
    case 2 then show ?thesis by (simp add: classify_def is_digit19_def)
  next
    case 3 then show ?thesis by (simp add: classify_def is_digit19_def)
  next
    case 4 then show ?thesis by (simp add: classify_def is_digit19_def)
  next
    case 5 then show ?thesis by (simp add: classify_def is_digit19_def)
  next
    case 6 then show ?thesis by (simp add: classify_def is_digit19_def)
  next
    case 7 then show ?thesis by (simp add: classify_def is_digit19_def)
  next
    case 8 then show ?thesis by (simp add: classify_def is_digit19_def)
  next
    case 9 then show ?thesis by (simp add: classify_def is_digit19_def)
  qed
qed

lemma kv_reswitch_unknown:
  assumes "c \<notin> set ''.#+-%*0123456789bcDdihjlnoprstuXxyz''"
  shows "kv_reswitch func radix percent d (c # rest) st =
         Inr ((PCHARs func (percent @ c # cstring rest) st)\<lparr> stop := True \<rparr>)"
  using classify_unknown [OF assms, of d]
  by (simp add: kv_reswitch.simps(2) kv_loop_stopped PCHARs_stop_update)

subsection \<open>The characters of a directive\<close>

lemma digit_char_range:
  "c \<in> set ''0123456789'' \<longleftrightarrow> (48::nat) \<le> of_char c \<and> of_char c \<le> (57::nat)"
proof
  assume "c \<in> set ''0123456789''"
  then show "(48::nat) \<le> of_char c \<and> of_char c \<le> (57::nat)" by auto
next
  assume a: "(48::nat) \<le> of_char c \<and> of_char c \<le> (57::nat)"
  have "\<forall>n \<in> set [48..<58]. char_of (n::nat) \<in> set ''0123456789''"
    by code_simp
  then have "\<forall>n \<in> {48..<58}. char_of (n::nat) \<in> set ''0123456789''"
    unfolding set_upt .
  moreover from a have "(of_char c :: nat) \<in> {48..<58}"
    unfolding atLeastLessThan_iff by linarith
  ultimately have "char_of (of_char c :: nat) \<in> set ''0123456789''" by blast
  then show "c \<in> set ''0123456789''" by simp
qed

text \<open>The digits \<open>kv_digits\<close> consumes lie before the first character that is not a
  digit.\<close>

lemma kv_digits_run:
  assumes "c \<notin> set ''0123456789''"
  shows "snd (kv_digits n ch (body @ c # rest)) \<le> length body
       \<and> set (take (snd (kv_digits n ch (body @ c # rest))) body) \<subseteq> set ''0123456789''"
proof (induction body arbitrary: n ch)
  case Nil
  from assms have "(of_char c :: nat) < 48 \<or> (57::nat) < of_char c"
    unfolding digit_char_range by linarith
  then show ?case by simp
next
  case (Cons x body)
  show ?case
  proof (cases "(of_char x :: nat) < 48 \<or> (57::nat) < of_char x")
    case True
    then show ?thesis by simp
  next
    case False
    then have x: "x \<in> set ''0123456789''"
      unfolding digit_char_range by linarith
    from Cons [of "int32 (n * 10 + int (of_char ch) - 48)" x] False x
    show ?thesis by (simp add: case_prod_beta)
  qed
qed

lemma directive_char_cases:
  assumes "b \<in> set ''.#+-*0123456789hjltz''"
  shows "b \<in> set ''.#+-hjltz'' \<or> b = CHR ''*'' \<or> b \<in> set ''0123456789''"
  using assms by auto

lemma classify_star: "classify (CHR ''*'') d = Star"
  by (simp add: classify_def)

lemma classify_digit:
  assumes "b \<in> set ''0123456789''"
  shows "classify b d = Digits \<or> (\<exists>d'. classify b d = Flag d')"
proof -
  from assms consider "b = CHR ''0''" | "b = CHR ''1''" | "b = CHR ''2''" | "b = CHR ''3''"
    | "b = CHR ''4''" | "b = CHR ''5''" | "b = CHR ''6''" | "b = CHR ''7''" | "b = CHR ''8''"
    | "b = CHR ''9''"
    by auto
  then show ?thesis
  proof cases
    case 1 then show ?thesis by (simp add: classify_def is_digit19_def)
  next
    case 2 then show ?thesis by (simp add: classify_def is_digit19_def)
  next
    case 3 then show ?thesis by (simp add: classify_def is_digit19_def)
  next
    case 4 then show ?thesis by (simp add: classify_def is_digit19_def)
  next
    case 5 then show ?thesis by (simp add: classify_def is_digit19_def)
  next
    case 6 then show ?thesis by (simp add: classify_def is_digit19_def)
  next
    case 7 then show ?thesis by (simp add: classify_def is_digit19_def)
  next
    case 8 then show ?thesis by (simp add: classify_def is_digit19_def)
  next
    case 9 then show ?thesis by (simp add: classify_def is_digit19_def)
  next
    case 10 then show ?thesis by (simp add: classify_def is_digit19_def)
  qed
qed

lemma count_list_no_star:
  "set xs \<subseteq> set ''0123456789'' \<Longrightarrow> count_list xs (CHR ''*'') = 0"
  by (induction xs) auto

lemma count_list_take_drop:
  "count_list (take k xs) y + count_list (drop k xs) y = count_list xs y"
  using count_list_append [of "take k xs" "drop k xs" y] by simp

subsection \<open>A whole directive that ends in an unknown character\<close>

text \<open>
  \<open>body\<close> is what stands between the \<open>%\<close> and the unknown character \<open>c\<close>: flags,
  length modifiers, digits, dots and stars. Every star fetches an \<open>int\<close>; \<open>ws\<close> are
  those arguments. The text read so far and the text still to read always make up the
  same string, so that what the \<open>default\<close> case writes is the directive as it stands
  in the format.
\<close>

lemma kv_reswitch_lockout:
  assumes c: "c \<notin> set ''.#+-%*0123456789bcDdihjlnoprstuXxyz''"
  shows "set body \<subseteq> set ''.#+-*0123456789hjltz'' \<Longrightarrow>
         ap st = map VInt ws @ rest_ap \<Longrightarrow> length ws = count_list body (CHR ''*'') \<Longrightarrow>
         kv_reswitch func radix percent d (body @ c # rest) st =
           Inr ((PCHARs func (percent @ body @ c # cstring rest) (st\<lparr> ap := rest_ap \<rparr>))
                  \<lparr> stop := True \<rparr>)"
proof (induction "length body" arbitrary: body percent d st ws rule: less_induct)
  case less
  define S where "S = set ''.#+-*0123456789hjltz''"
  from less.prems(1) have sub: "set body \<subseteq> S" by (simp only: S_def)
  from c have cd: "c \<notin> set ''0123456789''" by simp
  show ?case
  proof (cases body)
    case Nil
    with less.prems have "ap st = rest_ap" by simp
    then have "st\<lparr> ap := rest_ap \<rparr> = st" by simp
    then show ?thesis using kv_reswitch_unknown [OF c, of func radix percent d rest st] Nil
      by simp
  next
    case (Cons b body')
    from sub Cons have bS: "b \<in> S" and sub': "set body' \<subseteq> S" by simp_all
    from sub' have sub'': "set body' \<subseteq> set ''.#+-*0123456789hjltz''" by (simp only: S_def)
    from bS have "b \<in> set ''.#+-*0123456789hjltz''" by (simp only: S_def)
    from directive_char_cases [OF this] classify_flag [of b d] classify_digit [of b d]
      classify_star [of d]
    consider (flag) d' where "classify b d = Flag d'" "b \<noteq> CHR ''*''"
      | (star) "classify b d = Star" "b = CHR ''*''"
      | (digits) "classify b d = Digits" "b \<in> set ''0123456789''"
      by (metis token.distinct(3) token.distinct(11))
    then show ?thesis
    proof cases
      case flag
      have step: "kv_reswitch func radix percent d (body @ c # rest) st =
                  kv_reswitch func radix (percent @ [b]) d' (body' @ c # rest) st"
        using flag(1) Cons by (simp add: kv_reswitch.simps(2))
      have cnt: "length ws = count_list body' (CHR ''*'')"
        using less.prems(3) Cons flag(2) by simp
      have lt: "length body' < length body" using Cons by simp
      from less.hyps [OF lt sub'' less.prems(2) cnt, of "percent @ [b]" d']
      show ?thesis unfolding step using Cons by simp
    next
      case star
      from less.prems(3) Cons star(2) obtain w ws' where ws: "ws = w # ws'"
        and cnt: "length ws' = count_list body' (CHR ''*'')"
        by (cases ws) simp_all
      let ?st' = "st\<lparr> ap := map VInt ws' @ rest_ap \<rparr>"
      have ap': "ap ?st' = map VInt ws' @ rest_ap" by simp
      have step: "kv_reswitch func radix percent d (body @ c # rest) st =
                  kv_reswitch func radix (percent @ [b]) (star_arg d w) (body' @ c # rest) ?st'"
        using star(1) Cons less.prems(2) ws by (simp add: kv_reswitch.simps(2))
      have lt: "length body' < length body" using Cons by simp
      from less.hyps [OF lt sub'' ap' cnt, of "percent @ [b]" "star_arg d w"]
      show ?thesis unfolding step using Cons by simp
    next
      case digits
      define k where "k = snd (kv_digits 0 b (body' @ c # rest))"
      from kv_digits_run [OF cd, of 0 b body' rest]
      have kle: "k \<le> length body'" and kdig: "set (take k body') \<subseteq> set ''0123456789''"
        by (simp_all add: k_def)
      have tk: "take k (body' @ c # rest) = take k body'"
        and dk: "drop k (body' @ c # rest) = drop k body' @ c # rest"
        using kle by simp_all
      let ?d' = "if dot d then d\<lparr> dwidth := fst (kv_digits 0 b (body' @ c # rest)) \<rparr>
                 else d\<lparr> width := fst (kv_digits 0 b (body' @ c # rest)) \<rparr>"
      have step: "kv_reswitch func radix percent d (body @ c # rest) st =
                  kv_reswitch func radix (percent @ b # take k body') ?d'
                    (drop k body' @ c # rest) st"
        using digits(1) Cons
        by (simp add: kv_reswitch.simps(2) k_def [symmetric] tk dk del: take_append drop_append)
      have bnot: "b \<noteq> CHR ''*''" using digits(2) by auto
      have "count_list (take k body') (CHR ''*'') = 0"
        by (rule count_list_no_star [OF kdig])
      with count_list_take_drop [of k body' "CHR ''*''"]
      have "count_list (drop k body') (CHR ''*'') = count_list body' (CHR ''*'')" by simp
      then have cnt: "length ws = count_list (drop k body') (CHR ''*'')"
        using less.prems(3) Cons bnot by simp
      have sub3: "set (drop k body') \<subseteq> set ''.#+-*0123456789hjltz''"
        using sub'' set_drop_subset [of k body'] by blast
      have lt: "length (drop k body') < length body" using Cons by simp
      have whole: "(percent @ b # take k body') @ drop k body' @ c # cstring rest =
                 percent @ body @ c # cstring rest"
        using Cons by simp
      from less.hyps [OF lt sub3 less.prems(2) cnt, of "percent @ b # take k body'" ?d']
      show ?thesis unfolding step whole .
    qed
  qed
qed

text \<open>
  A prefix of the format that is rendered to the end, without a fault and without a
  NUL in it, leaves the engine in the main loop: the run on a longer format goes on from
  the state the prefix ends in.
\<close>

lemma kv_digits_append:
  "snd (kv_digits n ch fmt) < length fmt \<Longrightarrow> kv_digits n ch (fmt @ fmt2) = kv_digits n ch fmt"
proof (induction fmt arbitrary: n ch)
  case Nil
  then show ?case by simp
next
  case (Cons x fmt)
  show ?case
  proof (cases "(of_char x :: nat) < 48 \<or> (57::nat) < of_char x")
    case True
    then show ?thesis by simp
  next
    case False
    with Cons.prems have "snd (kv_digits (int32 (n * 10 + int (of_char ch) - 48)) x fmt) < length fmt"
      by (simp add: case_prod_beta)
    from Cons.IH [OF this] False show ?thesis by (simp add: case_prod_beta)
  qed
qed

lemma kv_digits_le: "snd (kv_digits n ch fmt) \<le> length fmt"
  by (induction fmt arbitrary: n ch) (simp_all add: case_prod_beta)

lemma kv_loop_append_aux:
  shows "NUL \<notin> set fmt \<Longrightarrow> kv_loop func radix fmt s = Inr s1 \<Longrightarrow>
         kv_loop func radix (fmt @ fmt2) s = kv_loop func radix fmt2 s1"
    and "NUL \<notin> set fmt' \<Longrightarrow> kv_reswitch func radix percent d fmt' s' = Inr s1 \<Longrightarrow>
         kv_reswitch func radix percent d (fmt' @ fmt2) s' = kv_loop func radix fmt2 s1"
proof (induction func radix fmt s and func radix percent d fmt' s' rule: kv_loop_kv_reswitch.induct)
  case (1 func radix st)
  then show ?case by simp
next
  case (2 func radix ch fmt st)
  from "2.prems" have n: "ch \<noteq> NUL" "NUL \<notin> set fmt" by auto
  show ?case
  proof (cases "ch \<noteq> CHR ''%'' \<or> stop st")
    case True
    with "2.prems" n have "kv_loop func radix fmt (PCHAR func ch st) = Inr s1" by simp
    from "2.IH"(1) [OF True n(1) n(2) this] True n show ?thesis by simp
  next
    case False
    with "2.prems" have "kv_reswitch func radix [ch] directive_init fmt st = Inr s1" by simp
    from "2.IH"(2) [OF False n(2) this] False show ?thesis by simp
  qed
next
  case (3 func radix percent d st)
  then show ?case by simp
next
  case (4 func radix percent d ch fmt st)
  from "4.prems" have n: "NUL \<notin> set fmt" by simp
  note run = "4.prems"(2)
  show ?case
  proof (cases "classify ch d")
    case (Flag d')
    with run have "kv_reswitch func radix (percent @ [ch]) d' fmt st = Inr s1"
      by (simp add: kv_reswitch.simps(2))
    from "4.IH"(1) [OF Flag n this] Flag show ?thesis by (simp add: kv_reswitch.simps(2))
  next
    case Percent
    with run have "kv_loop func radix fmt (PCHAR func ch st) = Inr s1"
      by (simp add: kv_reswitch.simps(2))
    from "4.IH"(2) [OF Percent n this] Percent show ?thesis by (simp add: kv_reswitch.simps(2))
  next
    case Star
    show ?thesis
    proof (cases "va_int (ap st)")
      case (Inl e)
      with Star run show ?thesis by (simp add: kv_reswitch.simps(2))
    next
      case (Inr vr)
      obtain v rest where vr: "vr = (v, rest)" by (cases vr)
      from run Star Inr vr
      have "kv_reswitch func radix (percent @ [ch]) (star_arg d v) fmt (st\<lparr> ap := rest \<rparr>) = Inr s1"
        by (simp add: kv_reswitch.simps(2))
      from "4.IH"(3) [OF Star Inr [unfolded vr] refl n this] Star Inr vr
      show ?thesis by (simp add: kv_reswitch.simps(2))
    qed
  next
    case Digits
    define k where "k = snd (kv_digits 0 ch fmt)"
    let ?d' = "if dot d then d\<lparr> dwidth := fst (kv_digits 0 ch fmt) \<rparr>
               else d\<lparr> width := fst (kv_digits 0 ch fmt) \<rparr>"
    from run Digits
    have r: "kv_reswitch func radix (percent @ ch # take k fmt) ?d' (drop k fmt) st = Inr s1"
      by (simp add: kv_reswitch.simps(2) k_def)
    have "k < length fmt"
    proof (rule ccontr)
      assume "\<not> k < length fmt"
      then have "drop k fmt = []" by simp
      with r show False by simp
    qed
    then have same: "kv_digits 0 ch (fmt @ fmt2) = kv_digits 0 ch fmt"
      and tk: "take k (fmt @ fmt2) = take k fmt"
      and dk: "drop k (fmt @ fmt2) = drop k fmt @ fmt2"
      by (simp_all add: k_def kv_digits_append)
    have n': "NUL \<notin> set (drop k fmt)"
      using n set_drop_subset [of k fmt] by blast
    from "4.IH"(4) [OF Digits n' [unfolded k_def] r [unfolded k_def]] Digits
    show ?thesis
      by (cases "dot d")
        (simp_all add: kv_reswitch.simps(2) same k_def [symmetric] tk dk
           del: take_append drop_append)
  next
    case (Conv cv)
    show ?thesis
    proof (cases "kv_convert func radix cv d st")
      case (Inl e)
      with Conv run show ?thesis by (simp add: kv_reswitch.simps(2))
    next
      case (Inr st')
      with Conv run have "kv_loop func radix fmt st' = Inr s1"
        by (simp add: kv_reswitch.simps(2))
      from "4.IH"(5) [OF Conv Inr n this] Conv Inr
      show ?thesis by (simp add: kv_reswitch.simps(2))
    qed
  next
    case Unknown
    with run
    have "kv_loop func radix fmt ((PCHARs func (percent @ [ch]) st)\<lparr> stop := True \<rparr>) = Inr s1"
      by (simp add: kv_reswitch.simps(2))
    from "4.IH"(6) [OF Unknown n this] Unknown show ?thesis by (simp add: kv_reswitch.simps(2))
  qed
qed

lemma kvprintf_append:
  assumes "NUL \<notin> set pre" and "kvprintf (Some pre) func arg radix ap0 = Inr st1"
  shows "kvprintf (Some (pre @ fmt2)) func arg radix ap0 =
         kv_loop func (if radix < 2 \<or> 36 < radix then 10 else radix) fmt2 st1"
  using assms unfolding kvprintf_def option.case
  by (rule kv_loop_append_aux(1))

lemma PCHAR_ap_update:
  "PCHAR func c (st\<lparr> ap := a \<rparr>) = (PCHAR func c st)\<lparr> ap := a \<rparr>"
  by (simp add: PCHAR_def)

lemma PCHARs_ap_update:
  "PCHARs func cs (st\<lparr> ap := a \<rparr>) = (PCHARs func cs st)\<lparr> ap := a \<rparr>"
  by (induction cs arbitrary: st) (simp_all add: PCHAR_ap_update)

lemma lockout_prefix_example:
  "kvprintf (Some ''x=%d '') collect [] 10 [VInt 5, VInt 8, VInt 9] =
     Inr \<lparr> ap = [VInt 8, VInt 9], sink = ''x=5 '', retval = 4, stop = False, stored = [] \<rparr>"
  by code_simp

text \<open>
  Claim C2. A directive is the \<open>%\<close>, a \<open>body\<close> of flags, length modifiers, digits,
  dots and stars, and the character \<open>c\<close> that ends it. When \<open>c\<close> is none of the
  characters the \<open>switch\<close> knows: every star of the body has fetched its \<open>int\<close>
  (\<open>ws\<close>), no other argument is fetched, the whole directive \<open>%\<close>, \<open>body\<close>, \<open>c\<close> is
  written out as it stands in the format, \<open>stop\<close> is set, and the rest of the format is
  copied up to its terminator with every later \<open>%\<close> in it. This holds at the label
  \<open>reswitch\<close> in any state; for a whole call after any prefix \<open>pre\<close> that is itself
  rendered to the end (to the state \<open>st1\<close>, with no lockout yet); and for a whole call
  after literal text \<open>lit\<close>, where the output is the format string itself.
\<close>

theorem unknown_conversion_lockout:
  assumes "c \<notin> set ''.#+-%*0123456789bcDdihjlnoprstuXxyz''"
    and "set body \<subseteq> set ''.#+-*0123456789hjltz''"
    and "length ws = count_list body (CHR ''*'')"
  shows "(ap st = map VInt ws @ rest_ap \<longrightarrow>
            kv_reswitch func radix percent d (body @ c # rest) st =
              Inr ((PCHARs func (percent @ body @ c # cstring rest) (st\<lparr> ap := rest_ap \<rparr>))
                     \<lparr> stop := True \<rparr>))
       \<and> (NUL \<notin> set pre \<and> kvprintf (Some pre) func arg radix ap0 = Inr st1 \<and> \<not> stop st1
            \<and> ap st1 = map VInt ws @ rest_ap \<longrightarrow>
            kvprintf (Some (pre @ CHR ''%'' # body @ c # rest)) func arg radix ap0 =
              Inr ((PCHARs func (CHR ''%'' # body @ c # cstring rest) (st1\<lparr> ap := rest_ap \<rparr>))
                     \<lparr> stop := True \<rparr>))
       \<and> (CHR ''%'' \<notin> set lit \<and> NUL \<notin> set lit \<longrightarrow>
            kvprintf (Some (lit @ CHR ''%'' # body @ c # rest)) func arg radix
                (map VInt ws @ rest_ap) =
              Inr \<lparr> ap = rest_ap,
                    sink = fold func (lit @ CHR ''%'' # body @ c # cstring rest) arg,
                    retval = int32 (int (length (lit @ CHR ''%'' # body @ c # cstring rest))),
                    stop = True, stored = [] \<rparr>)"
proof (intro conjI impI)
  assume "ap st = map VInt ws @ rest_ap"
  then show "kv_reswitch func radix percent d (body @ c # rest) st =
              Inr ((PCHARs func (percent @ body @ c # cstring rest) (st\<lparr> ap := rest_ap \<rparr>))
                     \<lparr> stop := True \<rparr>)"
    by (rule kv_reswitch_lockout [OF assms(1) assms(2) _ assms(3)])
next
  assume a: "NUL \<notin> set pre \<and> kvprintf (Some pre) func arg radix ap0 = Inr st1 \<and> \<not> stop st1
            \<and> ap st1 = map VInt ws @ rest_ap"
  let ?r = "if radix < 2 \<or> 36 < radix then 10 else radix"
  from a have n: "NUL \<notin> set pre" and run: "kvprintf (Some pre) func arg radix ap0 = Inr st1"
    and ns: "\<not> stop st1" and ap1: "ap st1 = map VInt ws @ rest_ap" by simp_all
  have "kvprintf (Some (pre @ CHR ''%'' # body @ c # rest)) func arg radix ap0 =
        kv_loop func ?r (CHR ''%'' # body @ c # rest) st1"
    by (rule kvprintf_append [OF n run])
  also have "\<dots> = kv_reswitch func ?r ''%'' directive_init (body @ c # rest) st1"
    using ns by simp
  also have "\<dots> = Inr ((PCHARs func (''%'' @ body @ c # cstring rest) (st1\<lparr> ap := rest_ap \<rparr>))
                     \<lparr> stop := True \<rparr>)"
    by (rule kv_reswitch_lockout [OF assms(1) assms(2) ap1 assms(3)])
  finally show "kvprintf (Some (pre @ CHR ''%'' # body @ c # rest)) func arg radix ap0 =
              Inr ((PCHARs func (CHR ''%'' # body @ c # cstring rest) (st1\<lparr> ap := rest_ap \<rparr>))
                     \<lparr> stop := True \<rparr>)"
    by simp
next
  assume a: "CHR ''%'' \<notin> set lit \<and> NUL \<notin> set lit"
  let ?r = "if radix < 2 \<or> 36 < radix then 10 else radix"
  let ?s0 = "\<lparr> ap = map VInt ws @ rest_ap, sink = arg, retval = 0, stop = False, stored = [] \<rparr>"
  let ?s1 = "\<lparr> ap = rest_ap, sink = arg, retval = 0, stop = False, stored = [] \<rparr>"
  let ?whole = "lit @ CHR ''%'' # body @ c # cstring rest"
  have ap1: "ap (PCHARs func lit ?s0) = map VInt ws @ rest_ap" by simp
  have s1: "kv_loop func ?r (lit @ CHR ''%'' # body @ c # rest) ?s0 =
            kv_loop func ?r (CHR ''%'' # body @ c # rest) (PCHARs func lit ?s0)"
    using a by (simp add: kv_loop_literal)
  have s2: "kv_loop func ?r (CHR ''%'' # body @ c # rest) (PCHARs func lit ?s0) =
            kv_reswitch func ?r ''%'' directive_init (body @ c # rest) (PCHARs func lit ?s0)"
    by simp
  have s3: "kv_reswitch func ?r ''%'' directive_init (body @ c # rest) (PCHARs func lit ?s0) =
     Inr ((PCHARs func (''%'' @ body @ c # cstring rest)
             ((PCHARs func lit ?s0)\<lparr> ap := rest_ap \<rparr>))\<lparr> stop := True \<rparr>)"
    by (rule kv_reswitch_lockout [OF assms(1) assms(2) ap1 assms(3)])
  have s4: "(PCHARs func lit ?s0)\<lparr> ap := rest_ap \<rparr> = PCHARs func lit ?s1"
    unfolding PCHARs_ap_update [symmetric] by simp
  have s5: "PCHARs func (''%'' @ body @ c # cstring rest) (PCHARs func lit ?s1) =
            PCHARs func ?whole ?s1"
    by simp
  have s6: "(PCHARs func ?whole ?s1)\<lparr> stop := True \<rparr> =
      \<lparr> ap = rest_ap, sink = fold func ?whole arg, retval = int32 (int (length ?whole)),
        stop = True, stored = [] \<rparr>"
    unfolding PCHARs_from_start by simp
  have "kvprintf (Some (lit @ CHR ''%'' # body @ c # rest)) func arg radix (map VInt ws @ rest_ap) =
        kv_loop func ?r (lit @ CHR ''%'' # body @ c # rest) ?s0"
    by (simp add: kvprintf_def)
  also note s1
  also note s2
  also note s3
  finally show "kvprintf (Some (lit @ CHR ''%'' # body @ c # rest)) func arg radix
                (map VInt ws @ rest_ap) =
              Inr \<lparr> ap = rest_ap, sink = fold func ?whole arg,
                    retval = int32 (int (length ?whole)), stop = True, stored = [] \<rparr>"
    unfolding s4 s5 s6 .
qed

theorem unknown_conversion_lockout_witness:
  "CHR ''q'' \<notin> set ''.#+-%*0123456789bcDdihjlnoprstuXxyz''
   \<and> set ''0*.3l'' \<subseteq> set ''.#+-*0123456789hjltz''
   \<and> length [8 :: u32] = count_list ''0*.3l'' (CHR ''*'')
   \<and> kvprintf (Some ''x=%d '') collect [] 10 [VInt 5, VInt 8, VInt 9] =
       Inr \<lparr> ap = [VInt 8, VInt 9], sink = ''x=5 '', retval = 4, stop = False, stored = [] \<rparr>
   \<and> kv_reswitch collect 10 ''%'' directive_init ''0*.3lq y%d''
        \<lparr> ap = [VInt 8, VInt 9], sink = ''x=5 '', retval = 4, stop = False, stored = [] \<rparr> =
       Inr \<lparr> ap = [VInt 9], sink = ''x=5 %0*.3lq y%d'', retval = 15, stop = True, stored = [] \<rparr>
   \<and> kvprintf (Some ''x=%d %0*.3lq y%d'') collect [] 10 [VInt 5, VInt 8, VInt 9] =
       Inr \<lparr> ap = [VInt 9], sink = ''x=5 %0*.3lq y%d'', retval = 15, stop = True, stored = [] \<rparr>
   \<and> kvprintf (Some ''ab%0*.3lq y%d'') collect [] 10 [VInt 8, VInt 9] =
       Inr \<lparr> ap = [VInt 9], sink = ''ab%0*.3lq y%d'', retval = 13, stop = True, stored = [] \<rparr>"
  using unknown_conversion_lockout [where c = "CHR ''q''" and body = "''0*.3l''" and ws = "[8]"
      and func = collect and radix = 10 and percent = "''%''" and d = directive_init
      and rest = "'' y%d''" and rest_ap = "[VInt 9]"
      and st = "\<lparr> ap = [VInt 8, VInt 9], sink = ''x=5 '', retval = 4, stop = False, stored = [] \<rparr>"
      and pre = "''x=%d ''" and arg = "[]" and ?ap0.0 = "[VInt 5, VInt 8, VInt 9]"
      and ?st1.0 = "\<lparr> ap = [VInt 8, VInt 9], sink = ''x=5 '', retval = 4, stop = False, stored = [] \<rparr>"
      and lit = "''ab''"]
  by (simp add: lockout_prefix_example cstring_def collect_def PCHAR_def)

subsection \<open>A \<open>NULL\<close> format\<close>

lemma fmt_null_run:
  "kv_loop func r (''(fmt null)'' @ [CHR 0x0A]) \<lparr> ap = ap0, sink = arg, retval = 0, stop = False, stored = [] \<rparr> =
   Inr \<lparr> ap = ap0, sink = fold func (''(fmt null)'' @ [CHR 0x0A]) arg, retval = 11,
         stop = False, stored = [] \<rparr>"
proof -
  let ?t = "''(fmt null)'' @ [CHR 0x0A]"
  let ?s0 = "\<lparr> ap = ap0, sink = arg, retval = 0, stop = False, stored = [] \<rparr>"
  have "kv_loop func r (?t @ []) ?s0 = kv_loop func r [] (PCHARs func ?t ?s0)"
    by (rule kv_loop_literal) simp_all
  then have "kv_loop func r ?t ?s0 = Inr (PCHARs func ?t ?s0)"
    by simp
  then show ?thesis
    unfolding PCHARs_from_start by simp
qed

text \<open>
  Claim C9, as the specification states it: the value returned for a \<open>NULL\<close> format
  is 12. The text \<open>(fmt null)\<close> with its newline has 11 characters, and 11 is returned.
\<close>

theorem fmt_null_returns_eleven:
  "kvprintf None collect [] 10 [] =
     Inr \<lparr> ap = [], sink = ''(fmt null)'' @ [CHR 0x0A], retval = 11, stop = False, stored = [] \<rparr>
   \<and> length (''(fmt null)'' @ [CHR 0x0A]) = 11
   \<and> map_sum id retval (kvprintf None collect [] 10 []) \<noteq> Inr 12"
  by code_simp

text \<open>
  Claim C9, amended. For every sink, argument list and radix, \<open>kvprintf\<close> with a
  \<open>NULL\<close> format does what it does with the format \<open>(fmt null)\<close> followed by a
  newline: it passes these 11 characters to the sink, fetches no argument, and returns
  their number, 11.
\<close>

theorem fmt_null_rendered:
  "kvprintf None func arg radix ap0 =
     kvprintf (Some (''(fmt null)'' @ [CHR 0x0A])) func arg radix ap0
   \<and> kvprintf None func arg radix ap0 =
     Inr \<lparr> ap = ap0, sink = fold func (''(fmt null)'' @ [CHR 0x0A]) arg,
           retval = int (length (''(fmt null)'' @ [CHR 0x0A])), stop = False, stored = [] \<rparr>
   \<and> int (length (''(fmt null)'' @ [CHR 0x0A])) = 11"
  unfolding kvprintf_def option.case fmt_null_run by simp

subsection \<open>The bit names of \<open>%b\<close>\<close>

lemma bits_example_collect:
  "kvprintf (Some ''%b'') collect [] 10
     [VInt 3, VStr (Some (CHR 0x08 # CHR 0x02 # ''BITTWO'' @ CHR 0x01 # ''BITONE''))] =
   Inr \<lparr> ap = [], sink = ''3<BITTWO,BITONE>'', retval = 16, stop = False, stored = [] \<rparr>"
  by code_simp

text \<open>
  Claim C8. The directive \<open>%b\<close> with the value 3 and the encoding whose first byte is
  8 (the base), followed by the byte 2 and the name \<open>BITTWO\<close>, then the byte 1 and the
  name \<open>BITONE\<close>, sends to any sink exactly the 16 characters \<open>3<BITTWO,BITONE>\<close>:
  the value in base 8, \<open><\<close> before the first name, \<open>,\<close> before the second, \<open>>\<close>
  after the last. Both arguments are consumed and 16 is returned.
\<close>

theorem bit_decode_example:
  "kvprintf (Some ''%b'') func arg 10
     [VInt 3, VStr (Some (CHR 0x08 # CHR 0x02 # ''BITTWO'' @ CHR 0x01 # ''BITONE''))] =
   Inr \<lparr> ap = [], sink = fold func ''3<BITTWO,BITONE>'' arg, retval = 16, stop = False,
         stored = [] \<rparr>
   \<and> render ''%b'' 10
     [VInt 3, VStr (Some (CHR 0x08 # CHR 0x02 # ''BITTWO'' @ CHR 0x01 # ''BITONE''))] =
   Inr (16, ''3<BITTWO,BITONE>'')"
proof -
  let ?enc = "VStr (Some (CHR 0x08 # CHR 0x02 # ''BITTWO'' @ CHR 0x01 # ''BITONE''))"
  have a: "kvprintf (Some ''%b'') func arg 10 [VInt 3, ?enc] =
           lift (with_sink (\<lambda>out. fold func out arg))
             (kvprintf (Some ''%b'') collect [] 10 [VInt 3, ?enc])"
    by (rule kvprintf_any_sink)
  show ?thesis
    unfolding render_def a bits_example_collect by (simp add: with_sink_def)
qed

subsection \<open>Zero padding of a signed decimal\<close>

lemma fetch_sign_sign_update [simp]: "fetch_sign (d\<lparr> sign := b \<rparr>) v = fetch_sign d v"
  by (simp add: fetch_sign_def)

lemma hex2ascii_digit: "k < 10 \<Longrightarrow> hex2ascii k \<in> set ''0123456789''"
proof -
  have "\<forall>k \<in> set [0..<10]. hex2ascii k \<in> set ''0123456789''"
    by code_simp
  moreover assume "k < 10"
  ultimately show ?thesis by simp
qed

lemma hex2ascii_digit_value: "k < 10 \<Longrightarrow> digit_value (hex2ascii k) = k"
proof -
  have "\<forall>k \<in> set [0..<10]. digit_value (hex2ascii k) = k"
    by code_simp
  moreover assume "k < 10"
  ultimately show ?thesis by simp
qed

lemma unat_mod_10: "unat (n mod 10 :: u32) < 10"
  by (simp add: unat_mod_distrib)

lemma ksprintn_10_digits: "set (ksprintn_10 n False) \<subseteq> set ''0123456789''"
proof (induction n "False" rule: ksprintn_10.induct)
  case (1 num)
  have h: "hex2ascii (unat (num mod 10)) \<in> set ''0123456789''"
    by (rule hex2ascii_digit [OF unat_mod_10])
  show ?case
  proof (cases "num div 10 = 0")
    case True
    then show ?thesis using h by (subst ksprintn_10.simps) (simp add: Let_def)
  next
    case False
    from 1 [OF refl refl False] have "set (ksprintn_10 (num div 10) False) \<subseteq> set ''0123456789''" .
    then show ?thesis using h False by (subst ksprintn_10.simps) (simp add: Let_def)
  qed
qed

lemma decimal_value_snoc: "decimal_value (s @ [c]) = 10 * decimal_value s + digit_value c"
  by (simp add: decimal_value_def)

lemma ksprintn_10_value: "decimal_value (rev (ksprintn_10 n False)) = unat n"
proof (induction n "False" rule: ksprintn_10.induct)
  case (1 num)
  have dv: "digit_value (hex2ascii (unat (num mod 10))) = unat (num mod 10)"
    by (rule hex2ascii_digit_value [OF unat_mod_10])
  have split: "unat num = 10 * unat (num div 10) + unat (num mod 10)"
    by (simp add: unat_div_distrib unat_mod_distrib)
  show ?case
  proof (cases "num div 10 = 0")
    case True
    then have "unat (num div 10) = 0" by simp
    with split have "unat num = unat (num mod 10)" by simp
    then show ?thesis using dv True
      by (subst ksprintn_10.simps) (simp add: Let_def decimal_value_def)
  next
    case False
    from 1 [OF refl refl False]
    have "decimal_value (rev (ksprintn_10 (num div 10) False)) = unat (num div 10)" .
    then show ?thesis using dv False split
      by (subst ksprintn_10.simps) (simp add: Let_def decimal_value_snoc)
  qed
qed

lemma kv_number_zero_pad:
  assumes pc: "padc d = CHR ''0''" and la: "\<not> ladjust d" and sg: "sign d"
    and wb: "width d \<le> 2147483647"
    and wd: "int (length (decimal_sign d v @ decimal_digits d v)) < width d"
  shows "kv_number func d (fetch_sign d v) 10 False False None st =
         Inr (PCHARs func
                (decimal_sign d v
                 @ replicate (nat (width d) - length (decimal_sign d v @ decimal_digits d v))
                     (CHR ''0'')
                 @ decimal_digits d v) st)"
proof (cases "sint (fetch_sign d v) < 0")
  case True
  let ?p = "ksprintn_10 (- fetch_sign d v) False"
  from wd True have w1: "1 + int (length ?p) < width d"
    by (simp add: decimal_sign_def decimal_digits_def)
  have n1: "nat (width d - 1 - int (length ?p)) = nat (width d) - Suc (length ?p)"
    using w1 by linarith
  show ?thesis
    using True w1 wb pc la sg
    by (simp add: kv_number_def Let_def ksprintn_def kv_number_out_def kv_number_tail_def
        pad_after_def imax_def decimal_sign_def decimal_digits_def n1)
next
  case False
  let ?p = "ksprintn_10 (fetch_sign d v) False"
  from wd False have w1: "int (length ?p) < width d"
    by (simp add: decimal_sign_def decimal_digits_def)
  have n1: "nat (width d - int (length ?p)) = nat (width d) - length ?p"
    using w1 by linarith
  show ?thesis
    using False w1 wb pc la sg
    by (simp add: kv_number_def Let_def ksprintn_def kv_number_out_def kv_number_tail_def
        pad_after_def imax_def decimal_sign_def decimal_digits_def n1)
qed

lemma kv_convert_zero_pad:
  assumes pc: "padc d = CHR ''0''" and la: "\<not> ladjust d" and a: "ap st = VInt v # rest"
    and wb: "width d \<le> 2147483647"
    and wd: "int (length (decimal_sign d v @ decimal_digits d v)) < width d"
  shows "kv_convert func radix Cd d st =
         Inr (PCHARs func
                (decimal_sign d v
                 @ replicate (nat (width d) - length (decimal_sign d v @ decimal_digits d v))
                     (CHR ''0'')
                 @ decimal_digits d v) (st\<lparr> ap := rest \<rparr>))"
proof -
  let ?d = "d\<lparr> sign := True \<rparr>"
  have eqs: "decimal_sign ?d v = decimal_sign d v" "decimal_digits ?d v = decimal_digits d v"
    by (simp_all add: decimal_sign_def decimal_digits_def)
  have "kv_number func ?d (fetch_sign ?d v) 10 False False None (st\<lparr> ap := rest \<rparr>) =
         Inr (PCHARs func
                (decimal_sign ?d v
                 @ replicate (nat (width ?d) - length (decimal_sign ?d v @ decimal_digits ?d v))
                     (CHR ''0'')
                 @ decimal_digits ?d v) (st\<lparr> ap := rest \<rparr>))"
    by (rule kv_number_zero_pad) (use pc la wb wd in \<open>simp_all add: eqs\<close>)
  then show ?thesis
    using a by (simp add: kv_handle_sign_def eqs)
qed

lemma zero_pad_length:
  "int (length (s @ p)) < w \<Longrightarrow> length (s @ replicate (nat w - length (s @ p)) c @ p) = nat w"
  by simp

lemma magnitude_value:
  "int (unat (if sint x < 0 then - x else x)) = \<bar>sint x\<bar>" for x :: u32
proof (cases "sint x < 0")
  case True
  have lo: "- 2147483648 \<le> sint x" using sint_ge [of x] by simp
  have "sint x mod 4294967296 = (sint x + 4294967296) mod 4294967296" by simp
  also have "\<dots> = sint x + 4294967296" using True lo by (intro mod_pos_pos_trivial) simp_all
  finally have ux: "uint x = sint x + 4294967296"
    by (simp add: uint_sint take_bit_eq_mod)
  have "uint (- x) = (- uint x) mod 4294967296"
    by (simp add: uint_word_ariths)
  also have "\<dots> = (- sint x - 4294967296) mod 4294967296" by (simp add: ux)
  also have "\<dots> = (- sint x) mod 4294967296" by (simp add: mod_diff_right_eq [symmetric] del: mod_diff_right_eq)
  also have "\<dots> = - sint x" using True lo by simp
  finally show ?thesis using True by simp
next
  case False
  have hi: "sint x < 2147483648" using sint_lt [of x] by simp
  have "uint x = sint x"
    using False hi by (simp add: uint_sint take_bit_eq_mod)
  then show ?thesis using False by simp
qed

lemma directive_init_fields:
  "dot directive_init = False" "ladjust directive_init = False"
  by (simp_all add: directive_init_def)

lemma kvprintf_zero_pad_star:
  assumes w0: "0 \<le> sint w"
    and wd: "int (length (decimal_sign (directive_init\<lparr> padc := CHR ''0'', width := sint w \<rparr>) v
                          @ decimal_digits (directive_init\<lparr> padc := CHR ''0'', width := sint w \<rparr>) v))
             < sint w"
  shows "kvprintf (Some ''%0*d'') func arg radix (VInt w # VInt v # rest) =
         Inr \<lparr> ap = rest,
               sink = fold func
                        (zero_padded_field (directive_init\<lparr> padc := CHR ''0'', width := sint w \<rparr>) v)
                        arg,
               retval = sint w, stop = False, stored = [] \<rparr>"
proof -
  let ?d = "directive_init\<lparr> padc := CHR ''0'', width := sint w \<rparr>"
  let ?r = "if radix < 2 \<or> 36 < radix then 10 else radix"
  let ?s0 = "\<lparr> ap = VInt w # VInt v # rest, sink = arg, retval = 0, stop = False, stored = [] \<rparr>"
  let ?s1 = "\<lparr> ap = VInt v # rest, sink = arg, retval = 0, stop = False, stored = [] \<rparr>"
  let ?s2 = "\<lparr> ap = rest, sink = arg, retval = 0, stop = False, stored = [] \<rparr>"
  have wb: "sint w \<le> 2147483647"
    using sint_lt [of w] by simp
  have s1: "kv_loop func ?r ''%0*d'' ?s0 =
            (case kv_convert func ?r Cd ?d ?s1 of Inl e \<Rightarrow> Inl e
             | Inr st' \<Rightarrow> kv_loop func ?r [] st')"
    using w0
    by (simp add: kv_reswitch.simps(2) classify_def is_digit19_def star_arg_def
        directive_init_fields del: kv_convert.simps)
  have s2: "kv_convert func ?r Cd ?d ?s1 = Inr (PCHARs func (zero_padded_field ?d v) (?s1\<lparr> ap := rest \<rparr>))"
    unfolding zero_padded_field_def
    by (rule kv_convert_zero_pad) (use wb wd in \<open>simp_all add: directive_init_fields\<close>)
  have len: "length (zero_padded_field ?d v) = nat (sint w)"
    using zero_pad_length [OF wd, of "CHR ''0''"] by (simp add: zero_padded_field_def)
  have s3: "PCHARs func (zero_padded_field ?d v) (?s1\<lparr> ap := rest \<rparr>) =
        \<lparr> ap = rest, sink = fold func (zero_padded_field ?d v) arg, retval = sint w,
          stop = False, stored = [] \<rparr>"
    using w0 wb by (simp add: PCHARs_from_start len)
  show ?thesis
    unfolding kvprintf_def option.case s1 s2 s3 by simp
qed

subsection \<open>A width written in the format\<close>

lemma foldl_decimal:
  "foldl (\<lambda>a c. 10 * a + digit_value c) a s =
   a * 10 ^ length s + foldl (\<lambda>a c. 10 * a + digit_value c) 0 s"
proof (induction s arbitrary: a)
  case Nil
  then show ?case by simp
next
  case (Cons x s)
  from Cons [of "10 * a + digit_value x"] Cons [of "digit_value x"]
  show ?case by (simp add: algebra_simps)
qed

lemma decimal_value_Cons:
  "decimal_value (c # s) = digit_value c * 10 ^ length s + decimal_value s"
  unfolding decimal_value_def using foldl_decimal [of "digit_value c" s] by simp

lemma digit_value_int:
  "c \<in> set ''0123456789'' \<Longrightarrow> int (of_char c) - 48 = int (digit_value c)"
  by (auto simp: digit_value_def)

text \<open>\<open>kv_digits\<close> reads a run of digits as the decimal number they write, and stops
  at the first character that is not a digit.\<close>

lemma kv_digits_value:
  assumes cv: "cv \<notin> set ''0123456789''"
  shows "set (ch # ds) \<subseteq> set ''0123456789'' \<Longrightarrow> 0 \<le> n \<Longrightarrow>
         n * 10 ^ Suc (length ds) + int (decimal_value (ch # ds)) \<le> 2147483647 \<Longrightarrow>
         kv_digits n ch (ds @ cv # post) =
           (n * 10 ^ Suc (length ds) + int (decimal_value (ch # ds)), length ds)"
proof (induction ds arbitrary: n ch)
  case Nil
  from cv have "(of_char cv :: nat) < 48 \<or> (57::nat) < of_char cv"
    unfolding digit_char_range by linarith
  moreover from Nil.prems(1) have "int (of_char ch) - 48 = int (digit_value ch)"
    by (intro digit_value_int) simp
  moreover have "decimal_value [ch] = digit_value ch" by (simp add: decimal_value_def)
  ultimately show ?case using Nil.prems(2,3) by (simp add: algebra_simps)
next
  case (Cons x ds)
  from Cons.prems(1) have chd: "ch \<in> set ''0123456789''" and xd: "x \<in> set ''0123456789''"
    and sub: "set (x # ds) \<subseteq> set ''0123456789''" by simp_all
  from xd have xr: "\<not> ((of_char x :: nat) < 48 \<or> (57::nat) < of_char x)"
    unfolding digit_char_range by linarith
  define n' where "n' = n * 10 + int (digit_value ch)"
  have dv: "int (of_char ch) - 48 = int (digit_value ch)" by (rule digit_value_int [OF chd])
  have n0: "0 \<le> n'" using Cons.prems(2) by (simp add: n'_def)
  have split: "n * 10 ^ Suc (length (x # ds)) + int (decimal_value (ch # x # ds)) =
               n' * 10 ^ Suc (length ds) + int (decimal_value (x # ds))"
    by (simp add: n'_def decimal_value_Cons [of ch] algebra_simps)
  with Cons.prems(3) have bound: "n' * 10 ^ Suc (length ds) + int (decimal_value (x # ds)) \<le> 2147483647"
    by simp
  have "(1::int) \<le> 10 ^ Suc (length ds)" by (rule one_le_power) simp
  from mult_left_mono [OF this n0] have "n' \<le> n' * 10 ^ Suc (length ds)" by simp
  with bound have nb: "n' \<le> 2147483647" by linarith
  have i32: "int32 (n * 10 + int (of_char ch) - 48) = n'"
    using n0 nb dv by (simp add: n'_def)
  from Cons.IH [OF sub n0 bound]
  have "kv_digits n' x (ds @ cv # post) =
          (n' * 10 ^ Suc (length ds) + int (decimal_value (x # ds)), length ds)" .
  then show ?case
    using xr by (simp add: i32 split [symmetric] del: power_Suc)
qed

lemma classify_digit19:
  assumes "ch \<in> set ''123456789''"
  shows "classify ch d = Digits"
proof -
  from assms consider "ch = CHR ''1''" | "ch = CHR ''2''" | "ch = CHR ''3''"
    | "ch = CHR ''4''" | "ch = CHR ''5''" | "ch = CHR ''6''" | "ch = CHR ''7''" | "ch = CHR ''8''"
    | "ch = CHR ''9''"
    by auto
  then show ?thesis
  proof cases
    case 1 then show ?thesis by (simp add: classify_def is_digit19_def)
  next
    case 2 then show ?thesis by (simp add: classify_def is_digit19_def)
  next
    case 3 then show ?thesis by (simp add: classify_def is_digit19_def)
  next
    case 4 then show ?thesis by (simp add: classify_def is_digit19_def)
  next
    case 5 then show ?thesis by (simp add: classify_def is_digit19_def)
  next
    case 6 then show ?thesis by (simp add: classify_def is_digit19_def)
  next
    case 7 then show ?thesis by (simp add: classify_def is_digit19_def)
  next
    case 8 then show ?thesis by (simp add: classify_def is_digit19_def)
  next
    case 9 then show ?thesis by (simp add: classify_def is_digit19_def)
  qed
qed

lemma classify_decimal:
  assumes "cv = CHR ''d'' \<or> cv = CHR ''i''"
  shows "classify cv d = Conv Cd"
proof -
  have "classify (CHR ''d'') d = Conv Cd" by (simp add: classify_def is_digit19_def)
  moreover have "classify (CHR ''i'') d = Conv Cd" by (simp add: classify_def is_digit19_def)
  ultimately show ?thesis using assms by blast
qed

lemma classify_zero_flag:
  "\<not> dot d \<Longrightarrow> classify (CHR ''0'') d = Flag (d\<lparr> padc := CHR ''0'' \<rparr>)"
  by (simp add: classify_def)

lemma kvprintf_zero_pad_literal:
  assumes n: "NUL \<notin> set pre" and run: "kvprintf (Some pre) func arg radix ap0 = Inr st1"
    and ns: "\<not> stop st1" and ap1: "ap st1 = VInt v # rest_ap"
    and ch: "ch \<in> set ''123456789''" and ds: "set ds \<subseteq> set ''0123456789''"
    and wb: "decimal_value (ch # ds) \<le> 2147483647"
    and cv: "cv = CHR ''d'' \<or> cv = CHR ''i''"
    and wd: "int (length (decimal_sign
                 (directive_init\<lparr> padc := CHR ''0'', width := int (decimal_value (ch # ds)) \<rparr>) v
               @ decimal_digits
                 (directive_init\<lparr> padc := CHR ''0'', width := int (decimal_value (ch # ds)) \<rparr>) v))
             < int (decimal_value (ch # ds))"
  shows "kvprintf (Some (pre @ ''%0'' @ ch # ds @ cv # post)) func arg radix ap0 =
         kv_loop func (if radix < 2 \<or> 36 < radix then 10 else radix) post
           (PCHARs func
              (zero_padded_field
                 (directive_init\<lparr> padc := CHR ''0'', width := int (decimal_value (ch # ds)) \<rparr>) v)
              (st1\<lparr> ap := rest_ap \<rparr>))"
proof -
  let ?W = "int (decimal_value (ch # ds))"
  let ?D = "directive_init\<lparr> padc := CHR ''0'', width := ?W \<rparr>"
  let ?d1 = "directive_init\<lparr> padc := CHR ''0'' \<rparr>"
  let ?r = "if radix < 2 \<or> 36 < radix then 10 else radix"
  have cvd: "cv \<notin> set ''0123456789''" using cv by auto
  have chd: "set (ch # ds) \<subseteq> set ''0123456789''" using ch ds by auto
  have dig: "kv_digits 0 ch (ds @ cv # post) = (?W, length ds)"
    using kv_digits_value [OF cvd chd, of 0 post] wb by simp
  have c0: "classify (CHR ''0'') directive_init = Flag ?d1"
    by (rule classify_zero_flag) (simp add: directive_init_fields)
  have c1: "classify ch ?d1 = Digits" by (rule classify_digit19 [OF ch])
  have c2: "classify cv ?D = Conv Cd" by (rule classify_decimal [OF cv])
  have nd: "\<not> dot ?d1" by (simp add: directive_init_fields)
  have conv: "kv_convert func ?r Cd ?D st1 =
              Inr (PCHARs func (zero_padded_field ?D v) (st1\<lparr> ap := rest_ap \<rparr>))"
    unfolding zero_padded_field_def
    by (rule kv_convert_zero_pad) (use ap1 wb wd in \<open>simp_all add: directive_init_fields\<close>)
  have "kvprintf (Some (pre @ ''%0'' @ ch # ds @ cv # post)) func arg radix ap0 =
        kv_loop func ?r (''%0'' @ ch # ds @ cv # post) st1"
    by (rule kvprintf_append [OF n run])
  also have "\<dots> = kv_reswitch func ?r ''%'' directive_init (CHR ''0'' # ch # ds @ cv # post) st1"
    using ns by simp
  also have "\<dots> = kv_reswitch func ?r ''%0'' ?d1 (ch # ds @ cv # post) st1"
    by (subst kv_reswitch.simps(2)) (simp add: c0)
  also have "\<dots> = kv_reswitch func ?r (''%0'' @ ch # ds) ?D (cv # post) st1"
    using nd by (subst kv_reswitch.simps(2)) (simp add: c1 dig)
  also have "\<dots> = kv_loop func ?r post
           (PCHARs func (zero_padded_field ?D v) (st1\<lparr> ap := rest_ap \<rparr>))"
    by (subst kv_reswitch.simps(2)) (simp add: c2 conv del: kv_convert.simps)
  finally show ?thesis .
qed

lemma kvprintf_zero_pad_alone:
  assumes ch: "ch \<in> set ''123456789''" and ds: "set ds \<subseteq> set ''0123456789''"
    and wb: "decimal_value (ch # ds) \<le> 2147483647"
    and cv: "cv = CHR ''d'' \<or> cv = CHR ''i''"
    and wd: "int (length (decimal_sign (directive_init\<lparr> padc := CHR ''0'', width := int (decimal_value (ch # ds)) \<rparr>) v @ decimal_digits (directive_init\<lparr> padc := CHR ''0'', width := int (decimal_value (ch # ds)) \<rparr>) v))
             < int (decimal_value (ch # ds))"
  shows "kvprintf (Some (''%0'' @ ch # ds @ [cv])) func arg radix (VInt v # rest_ap) =
         Inr \<lparr> ap = rest_ap, sink = fold func (zero_padded_field (directive_init\<lparr> padc := CHR ''0'', width := int (decimal_value (ch # ds)) \<rparr>) v) arg,
               retval = int (decimal_value (ch # ds)), stop = False, stored = [] \<rparr>"
proof -
  let ?s0 = "\<lparr> ap = VInt v # rest_ap, sink = arg, retval = 0, stop = False, stored = [] \<rparr>"
  have run: "kvprintf (Some []) func arg radix (VInt v # rest_ap) = Inr ?s0"
    by (simp add: kvprintf_def)
  have len: "length (zero_padded_field (directive_init\<lparr> padc := CHR ''0'', width := int (decimal_value (ch # ds)) \<rparr>) v) = nat (int (decimal_value (ch # ds)))"
    using zero_pad_length [OF wd, of "CHR ''0''"] by (simp add: zero_padded_field_def)
  have "kvprintf (Some ([] @ ''%0'' @ ch # ds @ cv # [])) func arg radix (VInt v # rest_ap) =
        kv_loop func (if radix < 2 \<or> 36 < radix then 10 else radix) []
          (PCHARs func (zero_padded_field (directive_init\<lparr> padc := CHR ''0'', width := int (decimal_value (ch # ds)) \<rparr>) v) (?s0\<lparr> ap := rest_ap \<rparr>))"
    by (rule kvprintf_zero_pad_literal [OF _ run _ _ ch ds wb cv wd]) simp_all
  then show ?thesis
    using wb by (simp add: PCHARs_from_start len)
qed

lemma zero_pad_example:
  "decimal_sign (directive_init\<lparr> padc := CHR ''0'', width := 7 \<rparr>) (- 42) = ''-''"
  "decimal_digits (directive_init\<lparr> padc := CHR ''0'', width := 7 \<rparr>) (- 42) = ''42''"
  "zero_padded_field (directive_init\<lparr> padc := CHR ''0'', width := 7 \<rparr>) (- 42) = ''-000042''"
  "sint (7 :: u32) = 7"
  "decimal_value ''12'' = 12"
  "decimal_sign (directive_init\<lparr> padc := CHR ''0'', width := 12 \<rparr>) (- 42) = ''-''"
  "decimal_digits (directive_init\<lparr> padc := CHR ''0'', width := 12 \<rparr>) (- 42) = ''42''"
  "zero_padded_field (directive_init\<lparr> padc := CHR ''0'', width := 12 \<rparr>) (- 42) =
     ''-00000000042''"
  "kvprintf (Some ''x=%d '') collect [] 10 [VInt 5, VInt (- 42)] =
     Inr \<lparr> ap = [VInt (- 42)], sink = ''x=5 '', retval = 4, stop = False, stored = [] \<rparr>"
  by code_simp+

text \<open>
  Claim C7. A \<open>%d\<close> (or \<open>%i\<close>) conversion whose directive has the pad character
  \<open>0\<close>, is not left-justified, and has a width greater than the number of characters
  of sign and digits together, writes exactly the field \<open>zero_padded_field\<close>: the
  \<open>-\<close> if the value is negative, then zeros, then the digits; the field has as many
  characters as the width, the digits are decimal digits and read back as the magnitude
  of the value. For a whole call with the format \<open>%0*d\<close>, a width \<open>w\<close> that is not
  negative and a value \<open>v\<close>: this field is all the output, and the value returned is the
  width. For a width written in the format, \<open>%0\<close> followed by the decimal digits
  \<open>ch # ds\<close> of the width and by \<open>d\<close> or \<open>i\<close>: after any prefix \<open>pre\<close> of the
  format that is itself rendered to the end (to the state \<open>st1\<close>, with no lockout),
  the directive writes this field for the width the digits denote, and the run goes on
  with the rest \<open>post\<close> of the format; when the directive is the whole format, the
  field is all the output and the value returned is the width.
\<close>

theorem zero_pad_signed_decimal:
  "(padc d = CHR ''0'' \<and> \<not> ladjust d \<and> ap st = VInt v # rest \<and> width d \<le> 2147483647
      \<and> int (length (decimal_sign d v @ decimal_digits d v)) < width d \<longrightarrow>
      kv_convert func radix Cd d st =
        Inr (PCHARs func (zero_padded_field d v) (st\<lparr> ap := rest \<rparr>))
      \<and> length (zero_padded_field d v) = nat (width d))
   \<and> zero_padded_field d v =
        decimal_sign d v
        @ replicate (nat (width d) - length (decimal_sign d v @ decimal_digits d v)) (CHR ''0'')
        @ decimal_digits d v
   \<and> decimal_sign d v = (if sint (fetch_sign d v) < 0 then ''-'' else [])
   \<and> set (decimal_digits d v) \<subseteq> set ''0123456789''
   \<and> int (decimal_value (decimal_digits d v)) = \<bar>sint (fetch_sign d v)\<bar>
   \<and> (0 \<le> sint w
      \<and> int (length (decimal_sign (directive_init\<lparr> padc := CHR ''0'', width := sint w \<rparr>) v
                      @ decimal_digits (directive_init\<lparr> padc := CHR ''0'', width := sint w \<rparr>) v))
          < sint w \<longrightarrow>
      kvprintf (Some ''%0*d'') func arg radix (VInt w # VInt v # rest) =
        Inr \<lparr> ap = rest,
              sink = fold func
                       (zero_padded_field (directive_init\<lparr> padc := CHR ''0'', width := sint w \<rparr>) v)
                       arg,
              retval = sint w, stop = False, stored = [] \<rparr>)
   \<and> (NUL \<notin> set pre \<and> kvprintf (Some pre) func arg radix ap0 = Inr st1 \<and> \<not> stop st1
      \<and> ap st1 = VInt v # rest_ap
      \<and> ch \<in> set ''123456789'' \<and> set ds \<subseteq> set ''0123456789''
      \<and> decimal_value (ch # ds) \<le> 2147483647 \<and> (cv = CHR ''d'' \<or> cv = CHR ''i'')
      \<and> int (length (decimal_sign (directive_init\<lparr> padc := CHR ''0'', width := int (decimal_value (ch # ds)) \<rparr>) v @ decimal_digits (directive_init\<lparr> padc := CHR ''0'', width := int (decimal_value (ch # ds)) \<rparr>) v))
          < int (decimal_value (ch # ds)) \<longrightarrow>
      kvprintf (Some (pre @ ''%0'' @ ch # ds @ cv # post)) func arg radix ap0 =
        kv_loop func (if radix < 2 \<or> 36 < radix then 10 else radix) post
          (PCHARs func (zero_padded_field (directive_init\<lparr> padc := CHR ''0'', width := int (decimal_value (ch # ds)) \<rparr>) v) (st1\<lparr> ap := rest_ap \<rparr>))
      \<and> length (zero_padded_field (directive_init\<lparr> padc := CHR ''0'', width := int (decimal_value (ch # ds)) \<rparr>) v) = decimal_value (ch # ds))
   \<and> (ch \<in> set ''123456789'' \<and> set ds \<subseteq> set ''0123456789''
      \<and> decimal_value (ch # ds) \<le> 2147483647 \<and> (cv = CHR ''d'' \<or> cv = CHR ''i'')
      \<and> int (length (decimal_sign (directive_init\<lparr> padc := CHR ''0'', width := int (decimal_value (ch # ds)) \<rparr>) v @ decimal_digits (directive_init\<lparr> padc := CHR ''0'', width := int (decimal_value (ch # ds)) \<rparr>) v))
          < int (decimal_value (ch # ds)) \<longrightarrow>
      kvprintf (Some (''%0'' @ ch # ds @ [cv])) func arg radix (VInt v # rest_ap) =
        Inr \<lparr> ap = rest_ap, sink = fold func (zero_padded_field (directive_init\<lparr> padc := CHR ''0'', width := int (decimal_value (ch # ds)) \<rparr>) v) arg,
              retval = int (decimal_value (ch # ds)), stop = False, stored = [] \<rparr>)"
proof (intro conjI impI)
  assume a: "padc d = CHR ''0'' \<and> \<not> ladjust d \<and> ap st = VInt v # rest \<and> width d \<le> 2147483647
      \<and> int (length (decimal_sign d v @ decimal_digits d v)) < width d"
  then show "kv_convert func radix Cd d st =
        Inr (PCHARs func (zero_padded_field d v) (st\<lparr> ap := rest \<rparr>))"
    unfolding zero_padded_field_def by (intro kv_convert_zero_pad) simp_all
  from a show "length (zero_padded_field d v) = nat (width d)"
    unfolding zero_padded_field_def by (intro zero_pad_length) simp
next
  show "zero_padded_field d v =
        decimal_sign d v
        @ replicate (nat (width d) - length (decimal_sign d v @ decimal_digits d v)) (CHR ''0'')
        @ decimal_digits d v"
    by (rule zero_padded_field_def)
next
  show "decimal_sign d v = (if sint (fetch_sign d v) < 0 then ''-'' else [])"
    by (rule decimal_sign_def)
next
  show "set (decimal_digits d v) \<subseteq> set ''0123456789''"
    unfolding decimal_digits_def set_rev by (rule ksprintn_10_digits)
next
  show "int (decimal_value (decimal_digits d v)) = \<bar>sint (fetch_sign d v)\<bar>"
    unfolding decimal_digits_def ksprintn_10_value by (rule magnitude_value)
next
  assume "0 \<le> sint w
      \<and> int (length (decimal_sign (directive_init\<lparr> padc := CHR ''0'', width := sint w \<rparr>) v
                      @ decimal_digits (directive_init\<lparr> padc := CHR ''0'', width := sint w \<rparr>) v))
          < sint w"
  then show "kvprintf (Some ''%0*d'') func arg radix (VInt w # VInt v # rest) =
        Inr \<lparr> ap = rest,
              sink = fold func
                       (zero_padded_field (directive_init\<lparr> padc := CHR ''0'', width := sint w \<rparr>) v)
                       arg,
              retval = sint w, stop = False, stored = [] \<rparr>"
    by (intro kvprintf_zero_pad_star) simp_all
next
  assume a: "NUL \<notin> set pre \<and> kvprintf (Some pre) func arg radix ap0 = Inr st1 \<and> \<not> stop st1
      \<and> ap st1 = VInt v # rest_ap
      \<and> ch \<in> set ''123456789'' \<and> set ds \<subseteq> set ''0123456789''
      \<and> decimal_value (ch # ds) \<le> 2147483647 \<and> (cv = CHR ''d'' \<or> cv = CHR ''i'')
      \<and> int (length (decimal_sign (directive_init\<lparr> padc := CHR ''0'', width := int (decimal_value (ch # ds)) \<rparr>) v @ decimal_digits (directive_init\<lparr> padc := CHR ''0'', width := int (decimal_value (ch # ds)) \<rparr>) v))
          < int (decimal_value (ch # ds))"
  then show "kvprintf (Some (pre @ ''%0'' @ ch # ds @ cv # post)) func arg radix ap0 =
        kv_loop func (if radix < 2 \<or> 36 < radix then 10 else radix) post
          (PCHARs func (zero_padded_field (directive_init\<lparr> padc := CHR ''0'', width := int (decimal_value (ch # ds)) \<rparr>) v) (st1\<lparr> ap := rest_ap \<rparr>))"
    by (intro kvprintf_zero_pad_literal) (simp_all only: simp_thms)
  from a have wd: "int (length (decimal_sign (directive_init\<lparr> padc := CHR ''0'', width := int (decimal_value (ch # ds)) \<rparr>) v @ decimal_digits (directive_init\<lparr> padc := CHR ''0'', width := int (decimal_value (ch # ds)) \<rparr>) v))
          < int (decimal_value (ch # ds))" by (simp only: simp_thms)
  show "length (zero_padded_field (directive_init\<lparr> padc := CHR ''0'', width := int (decimal_value (ch # ds)) \<rparr>) v) = decimal_value (ch # ds)"
    using zero_pad_length [OF wd, of "CHR ''0''"] by (simp add: zero_padded_field_def)
next
  assume "ch \<in> set ''123456789'' \<and> set ds \<subseteq> set ''0123456789''
      \<and> decimal_value (ch # ds) \<le> 2147483647 \<and> (cv = CHR ''d'' \<or> cv = CHR ''i'')
      \<and> int (length (decimal_sign (directive_init\<lparr> padc := CHR ''0'', width := int (decimal_value (ch # ds)) \<rparr>) v @ decimal_digits (directive_init\<lparr> padc := CHR ''0'', width := int (decimal_value (ch # ds)) \<rparr>) v))
          < int (decimal_value (ch # ds))"
  then show "kvprintf (Some (''%0'' @ ch # ds @ [cv])) func arg radix (VInt v # rest_ap) =
        Inr \<lparr> ap = rest_ap, sink = fold func (zero_padded_field (directive_init\<lparr> padc := CHR ''0'', width := int (decimal_value (ch # ds)) \<rparr>) v) arg,
              retval = int (decimal_value (ch # ds)), stop = False, stored = [] \<rparr>"
    by (intro kvprintf_zero_pad_alone) (simp_all only: simp_thms)
qed

theorem zero_pad_signed_decimal_witness:
  "kv_convert collect 10 Cd (directive_init\<lparr> padc := CHR ''0'', width := 7 \<rparr>)
      \<lparr> ap = [VInt (- 42)], sink = ''x='', retval = 2, stop = False, stored = [] \<rparr> =
     Inr \<lparr> ap = [], sink = ''x=-000042'', retval = 9, stop = False, stored = [] \<rparr>
   \<and> length ''-000042'' = nat 7
   \<and> kvprintf (Some ''%0*d'') collect [] 10 [VInt 7, VInt (- 42)] =
     Inr \<lparr> ap = [], sink = ''-000042'', retval = 7, stop = False, stored = [] \<rparr>
   \<and> kvprintf (Some ''x=%d '') collect [] 10 [VInt 5, VInt (- 42)] =
     Inr \<lparr> ap = [VInt (- 42)], sink = ''x=5 '', retval = 4, stop = False, stored = [] \<rparr>
   \<and> kvprintf (Some ''x=%d %012d!'') collect [] 10 [VInt 5, VInt (- 42)] =
     Inr \<lparr> ap = [], sink = ''x=5 -00000000042!'', retval = 17, stop = False, stored = [] \<rparr>
   \<and> length ''-00000000042'' = decimal_value ''12''
   \<and> kvprintf (Some ''%012d'') collect [] 10 [VInt (- 42)] =
     Inr \<lparr> ap = [], sink = ''-00000000042'', retval = 12, stop = False, stored = [] \<rparr>"
  using zero_pad_signed_decimal [where d = "directive_init\<lparr> padc := CHR ''0'', width := 7 \<rparr>"
      and v = "- 42" and rest = "[]" and func = collect and radix = 10 and w = 7 and arg = "[]"
      and st = "\<lparr> ap = [VInt (- 42)], sink = ''x='', retval = 2, stop = False, stored = [] \<rparr>"
      and pre = "''x=%d ''" and ?ap0.0 = "[VInt 5, VInt (- 42)]"
      and ?st1.0 = "\<lparr> ap = [VInt (- 42)], sink = ''x=5 '', retval = 4, stop = False, stored = [] \<rparr>"
      and rest_ap = "[]" and ch = "CHR ''1''" and ds = "''2''" and cv = "CHR ''d''"
      and post = "''!''"]
  by (simp add: zero_pad_example directive_init_fields collect_def PCHAR_def)

subsection \<open>The radix argument and the directive \<open>%r\<close>\<close>

lemma unat_and_less: "unat (n AND m) < Suc (unat m)" for n m :: u32
proof -
  have "n AND m \<le> m" by (rule word_and_le1)
  then have "unat (n AND m) \<le> unat m" by (simp only: word_le_nat_alt)
  then show ?thesis by simp
qed

lemma hex2ascii_no_placeholder: "k < 36 \<Longrightarrow> hex2ascii k \<noteq> CHR ''?''"
proof -
  have "\<forall>k \<in> set [0..<36]. hex2ascii k \<noteq> CHR ''?''"
    by code_simp
  moreover assume "k < 36"
  ultimately show ?thesis by simp
qed

lemma ksprintn_10_no_placeholder: "CHR ''?'' \<notin> set (ksprintn_10 n False)"
  using ksprintn_10_digits [of n] by auto

lemma ksprintn_16_no_placeholder: "CHR ''?'' \<notin> set (ksprintn_16 n False)"
proof (induction n "False" rule: ksprintn_16.induct)
  case (1 num)
  have "unat (num AND 15) < 36" using unat_and_less [of num 15] by simp
  then have h: "hex2ascii (unat (num AND 15)) \<noteq> CHR ''?''" by (rule hex2ascii_no_placeholder)
  show ?case
  proof (cases "drop_bit 4 num = 0")
    case True
    then show ?thesis using h by (subst ksprintn_16.simps) (simp add: Let_def)
  next
    case False
    from 1 [OF refl refl False] show ?thesis
      using h False by (subst ksprintn_16.simps) (simp add: Let_def)
  qed
qed

lemma ksprintn_8_no_placeholder: "CHR ''?'' \<notin> set (ksprintn_8 n False)"
proof (induction n "False" rule: ksprintn_8.induct)
  case (1 num)
  have "unat (num AND 7) < 36" using unat_and_less [of num 7] by simp
  then have h: "hex2ascii (unat (num AND 7)) \<noteq> CHR ''?''" by (rule hex2ascii_no_placeholder)
  show ?case
  proof (cases "drop_bit 3 num = 0")
    case True
    then show ?thesis using h by (subst ksprintn_8.simps) (simp add: Let_def)
  next
    case False
    from 1 [OF refl refl False] show ?thesis
      using h False by (subst ksprintn_8.simps) (simp add: Let_def)
  qed
qed

lemma ksprintn_2_no_placeholder: "CHR ''?'' \<notin> set (ksprintn_2 n False)"
proof (induction n "False" rule: ksprintn_2.induct)
  case (1 num)
  have "unat (num AND 1) < 36" using unat_and_less [of num 1] by simp
  then have h: "hex2ascii (unat (num AND 1)) \<noteq> CHR ''?''" by (rule hex2ascii_no_placeholder)
  show ?case
  proof (cases "drop_bit 1 num = 0")
    case True
    then show ?thesis using h by (subst ksprintn_2.simps) (simp add: Let_def)
  next
    case False
    from 1 [OF refl refl False] show ?thesis
      using h False by (subst ksprintn_2.simps) (simp add: Let_def)
  qed
qed

text \<open>\<open>ksprintn\<close> stores the placeholder exactly for the bases it has no loop for.\<close>

lemma ksprintn_placeholder:
  "ksprintn num base False = ''?'' \<longleftrightarrow> base \<notin> {2, 8, 10, 16}"
proof -
  have "ksprintn_10 num False \<noteq> ''?''" using ksprintn_10_no_placeholder [of num] by auto
  moreover have "ksprintn_16 num False \<noteq> ''?''" using ksprintn_16_no_placeholder [of num] by auto
  moreover have "ksprintn_8 num False \<noteq> ''?''" using ksprintn_8_no_placeholder [of num] by auto
  moreover have "ksprintn_2 num False \<noteq> ''?''" using ksprintn_2_no_placeholder [of num] by auto
  ultimately show ?thesis by (simp add: ksprintn_def)
qed

text \<open>The digits fit the buffer \<open>nbuf\<close>.\<close>

lemma ksprintn_10_length_aux:
  "unat n < 10 ^ Suc k \<Longrightarrow> length (ksprintn_10 n up) \<le> Suc k"
proof (induction k arbitrary: n)
  case 0
  then have "unat (n div 10) = 0" by (simp add: unat_div_distrib)
  then have "n div 10 = 0" by (simp add: unat_eq_0)
  then show ?case by (subst ksprintn_10.simps) (simp add: Let_def)
next
  case (Suc k)
  show ?case
  proof (cases "n div 10 = 0")
    case True
    then show ?thesis by (subst ksprintn_10.simps) (simp add: Let_def)
  next
    case False
    from Suc.prems have "unat n div 10 < 10 ^ Suc k" by simp
    then have "unat (n div 10) < 10 ^ Suc k" by (simp add: unat_div_distrib)
    from Suc.IH [OF this] show ?thesis
      using False by (subst ksprintn_10.simps) (simp add: Let_def)
  qed
qed

lemma ksprintn_16_length_aux:
  "unat n < 16 ^ Suc k \<Longrightarrow> length (ksprintn_16 n up) \<le> Suc k"
proof (induction k arbitrary: n)
  case 0
  then have "unat (drop_bit 4 n) = 0" by (simp add: drop_bit_eq_div unat_div_distrib)
  then have "drop_bit 4 n = 0" by (simp add: unat_eq_0)
  then show ?case by (subst ksprintn_16.simps) (simp add: Let_def)
next
  case (Suc k)
  show ?case
  proof (cases "drop_bit 4 n = 0")
    case True
    then show ?thesis by (subst ksprintn_16.simps) (simp add: Let_def)
  next
    case False
    from Suc.prems have "unat n div 16 < 16 ^ Suc k" by simp
    then have "unat (drop_bit 4 n) < 16 ^ Suc k" by (simp add: drop_bit_eq_div unat_div_distrib)
    from Suc.IH [OF this] show ?thesis
      using False by (subst ksprintn_16.simps) (simp add: Let_def)
  qed
qed

lemma ksprintn_8_length_aux:
  "unat n < 8 ^ Suc k \<Longrightarrow> length (ksprintn_8 n up) \<le> Suc k"
proof (induction k arbitrary: n)
  case 0
  then have "unat (drop_bit 3 n) = 0" by (simp add: drop_bit_eq_div unat_div_distrib)
  then have "drop_bit 3 n = 0" by (simp add: unat_eq_0)
  then show ?case by (subst ksprintn_8.simps) (simp add: Let_def)
next
  case (Suc k)
  show ?case
  proof (cases "drop_bit 3 n = 0")
    case True
    then show ?thesis by (subst ksprintn_8.simps) (simp add: Let_def)
  next
    case False
    from Suc.prems have "unat n div 8 < 8 ^ Suc k" by simp
    then have "unat (drop_bit 3 n) < 8 ^ Suc k" by (simp add: drop_bit_eq_div unat_div_distrib)
    from Suc.IH [OF this] show ?thesis
      using False by (subst ksprintn_8.simps) (simp add: Let_def)
  qed
qed

lemma ksprintn_2_length_aux:
  "unat n < 2 ^ Suc k \<Longrightarrow> length (ksprintn_2 n up) \<le> Suc k"
proof (induction k arbitrary: n)
  case 0
  then have "unat (drop_bit 1 n) = 0" by (simp add: drop_bit_eq_div unat_div_distrib)
  then have "drop_bit 1 n = 0" by (simp add: unat_eq_0)
  then show ?case by (subst ksprintn_2.simps) (simp add: Let_def)
next
  case (Suc k)
  show ?case
  proof (cases "drop_bit 1 n = 0")
    case True
    then show ?thesis by (subst ksprintn_2.simps) (simp add: Let_def)
  next
    case False
    from Suc.prems have "unat n div 2 < 2 ^ Suc k" by simp
    then have "unat (drop_bit 1 n) < 2 ^ Suc k" by (simp add: drop_bit_eq_div unat_div_distrib)
    from Suc.IH [OF this] show ?thesis
      using False by (subst ksprintn_2.simps) (simp add: Let_def)
  qed
qed

lemma ksprintn_length: "length (ksprintn n base up) \<le> 32"
proof -
  have u: "unat n < 4294967296" using unsigned_less [of n, where ?'a = nat] by simp
  from u have "unat n < 10 ^ Suc 9" by simp
  from ksprintn_10_length_aux [OF this, of up] have a: "length (ksprintn_10 n up) \<le> 32" by linarith
  from u have "unat n < 16 ^ Suc 7" by simp
  from ksprintn_16_length_aux [OF this, of up] have b: "length (ksprintn_16 n up) \<le> 32" by linarith
  from u have "unat n < 8 ^ Suc 10" by simp
  from ksprintn_8_length_aux [OF this, of up] have c: "length (ksprintn_8 n up) \<le> 32" by linarith
  from u have "unat n < 2 ^ Suc 31" by simp
  from ksprintn_2_length_aux [OF this, of up] have d: "length (ksprintn_2 n up) \<le> 32" by linarith
  from a b c d show ?thesis by (simp add: ksprintn_def)
qed

lemma ksprintn_nonempty: "ksprintn n base up \<noteq> []"
proof -
  have "ksprintn_10 n up \<noteq> []" by (subst ksprintn_10.simps) (simp add: Let_def)
  moreover have "ksprintn_16 n up \<noteq> []" by (subst ksprintn_16.simps) (simp add: Let_def)
  moreover have "ksprintn_8 n up \<noteq> []" by (subst ksprintn_8.simps) (simp add: Let_def)
  moreover have "ksprintn_2 n up \<noteq> []" by (subst ksprintn_2.simps) (simp add: Let_def)
  ultimately show ?thesis by (simp add: ksprintn_def)
qed

text \<open>The directive \<open>%r\<close> alone, for any radix argument: the digits \<open>ksprintn\<close>
  stores for the base in force, written out last digit first.\<close>

lemma classify_r: "classify (CHR ''r'') d = Conv Cr"
  by (simp add: classify_def is_digit19_def)

lemma kv_number_plain:
  assumes "\<not> sharpflag d" and "\<not> sign d" and "\<not> ladjust d" and "padc d = CHR '' ''"
    and "width d = 0" and "dwidth d = 0"
  shows "kv_number func d num base False False None st =
         Inr (PCHARs func (rev (ksprintn num base False)) st)"
proof -
  define p where "p = ksprintn num base False"
  have l: "length p \<le> 32" unfolding p_def by (rule ksprintn_length)
  then have i: "int32 (int (length p)) = int (length p)" by simp
  have j: "int32 (- int (length p)) = - int (length p)" using l by simp
  show ?thesis
    using assms l
    by (simp add: kv_number_def Let_def p_def [symmetric] kv_number_out_def
        kv_number_tail_def pad_after_def imax_def i j)
qed

lemma kvprintf_r:
  "kvprintf (Some ''%r'') func arg radix (VInt v # rest) =
     Inr \<lparr> ap = rest,
           sink = fold func
                    (rev (ksprintn v (if radix < 2 \<or> 36 < radix then 10 else radix) False)) arg,
           retval = int (length (ksprintn v (if radix < 2 \<or> 36 < radix then 10 else radix) False)),
           stop = False, stored = [] \<rparr>"
proof -
  let ?r = "if radix < 2 \<or> 36 < radix then 10 else radix"
  let ?s0 = "\<lparr> ap = VInt v # rest, sink = arg, retval = 0, stop = False, stored = [] \<rparr>"
  let ?s1 = "\<lparr> ap = rest, sink = arg, retval = 0, stop = False, stored = [] \<rparr>"
  let ?p = "ksprintn v ?r False"
  have num: "kv_number func (directive_init\<lparr> sign := False \<rparr>) v ?r False False None ?s1 =
             Inr (PCHARs func (rev ?p) ?s1)"
    by (rule kv_number_plain) (simp_all add: directive_init_def)
  have conv: "kv_convert func ?r Cr directive_init ?s0 = Inr (PCHARs func (rev ?p) ?s1)"
    using num by (simp add: kv_handle_nosign_def fetch_nosign_def directive_init_def)
  have l: "length ?p \<le> 32" by (rule ksprintn_length)
  have "kvprintf (Some ''%r'') func arg radix (VInt v # rest) =
        kv_reswitch func ?r ''%'' directive_init ''r'' ?s0"
    by (simp add: kvprintf_def)
  also have "\<dots> = Inr (PCHARs func (rev ?p) ?s1)"
    by (subst kv_reswitch.simps(2)) (simp add: classify_r conv del: kv_convert.simps)
  finally show ?thesis
    using l by (simp add: PCHARs_from_start)
qed

lemma fold_collect: "fold collect xs ys = ys @ xs"
  by (induction xs arbitrary: ys) (simp_all add: collect_def)

lemma render_r:
  "render ''%r'' radix (VInt v # rest) =
     Inr (int (length (ksprintn v (if radix < 2 \<or> 36 < radix then 10 else radix) False)),
          rev (ksprintn v (if radix < 2 \<or> 36 < radix then 10 else radix) False))"
  by (simp add: render_def kvprintf_r fold_collect)

lemma render_r_placeholder:
  "render ''%r'' radix (VInt v # rest) = Inr (1, ''?'') \<longleftrightarrow>
   2 \<le> radix \<and> radix \<le> 36 \<and> radix \<notin> {2, 8, 10, 16}"
proof -
  let ?r = "if radix < 2 \<or> 36 < radix then 10 else radix"
  have "render ''%r'' radix (VInt v # rest) = Inr (1, ''?'') \<longleftrightarrow> ksprintn v ?r False = ''?''"
    unfolding render_r by (auto simp: rev_singleton_conv)
  also have "\<dots> \<longleftrightarrow> ?r \<notin> {2, 8, 10, 16}" by (rule ksprintn_placeholder)
  also have "\<dots> \<longleftrightarrow> 2 \<le> radix \<and> radix \<le> 36 \<and> radix \<notin> {2, 8, 10, 16}" by auto
  finally show ?thesis .
qed

lemma radix_example:
  "ksprintn_10 255 False = ''552''"
  "vsnrprintf (replicate 8 (CHR ''#'')) 8 10 (Some ''%r'') [VInt 255] =
     Inr (3, ''255'' @ [NUL] @ ''####'')"
  "kvprintf (Some ''%r'') collect [] 10 [VInt 255] =
     Inr \<lparr> ap = [], sink = ''255'', retval = 3, stop = False, stored = [] \<rparr>"
  by code_simp+

text \<open>
  Claim C10. A radix argument \<open>r\<close> below 2 or above 36 is replaced by 10 before the
  format is read: for every format, sink and argument list \<open>kvprintf\<close> does what it
  does with the radix 10, and so does \<open>vsnrprintf\<close>. The directive \<open>%r\<close> under such a
  radix writes the decimal digits of its argument, never the placeholder. With the
  radix argument \<open>q\<close>, \<open>%r\<close> renders the single character \<open>?\<close> exactly when
  \<open>q\<close> lies in 2..36 and is none of 2, 8, 10 and 16.
\<close>

theorem radix_out_of_range_is_decimal:
  "(r < 2 \<or> 36 < r \<longrightarrow>
      kvprintf fmt func arg r ap0 = kvprintf fmt func arg 10 ap0
      \<and> vsnrprintf dst sz r fmt ap0 = vsnrprintf dst sz 10 fmt ap0
      \<and> kvprintf (Some ''%r'') func arg r (VInt v # rest) =
          Inr \<lparr> ap = rest, sink = fold func (rev (ksprintn_10 v False)) arg,
                retval = int (length (ksprintn_10 v False)), stop = False, stored = [] \<rparr>
      \<and> render ''%r'' r (VInt v # rest) \<noteq> Inr (1, ''?''))
   \<and> set (rev (ksprintn_10 v False)) \<subseteq> set ''0123456789''
   \<and> decimal_value (rev (ksprintn_10 v False)) = unat v
   \<and> (render ''%r'' q (VInt v # rest) = Inr (1, ''?'') \<longleftrightarrow>
        2 \<le> q \<and> q \<le> 36 \<and> q \<notin> {2, 8, 10, 16})
   \<and> (2 \<le> q \<and> q \<le> 36 \<and> q \<notin> {2, 8, 10, 16} \<longrightarrow>
        kvprintf (Some ''%r'') func arg q (VInt v # rest) =
          Inr \<lparr> ap = rest, sink = fold func ''?'' arg, retval = 1, stop = False,
                stored = [] \<rparr>)"
proof (intro conjI impI)
  assume a: "r < 2 \<or> 36 < r"
  then show "kvprintf fmt func arg r ap0 = kvprintf fmt func arg 10 ap0"
    by (simp add: kvprintf_def)
  then show "vsnrprintf dst sz r fmt ap0 = vsnrprintf dst sz 10 fmt ap0"
    using a by (simp add: vsnrprintf_def kvprintf_def)
  from a have "(if r < 2 \<or> 36 < r then 10 else r) = 10" by simp
  then show "kvprintf (Some ''%r'') func arg r (VInt v # rest) =
          Inr \<lparr> ap = rest, sink = fold func (rev (ksprintn_10 v False)) arg,
                retval = int (length (ksprintn_10 v False)), stop = False, stored = [] \<rparr>"
    unfolding kvprintf_r by (simp add: ksprintn_def)
  from a show "render ''%r'' r (VInt v # rest) \<noteq> Inr (1, ''?'')"
    unfolding render_r_placeholder by auto
next
  show "set (rev (ksprintn_10 v False)) \<subseteq> set ''0123456789''"
    unfolding set_rev by (rule ksprintn_10_digits)
next
  show "decimal_value (rev (ksprintn_10 v False)) = unat v"
    by (rule ksprintn_10_value)
next
  show "render ''%r'' q (VInt v # rest) = Inr (1, ''?'') \<longleftrightarrow>
        2 \<le> q \<and> q \<le> 36 \<and> q \<notin> {2, 8, 10, 16}"
    by (rule render_r_placeholder)
next
  assume b: "2 \<le> q \<and> q \<le> 36 \<and> q \<notin> {2, 8, 10, 16}"
  then have "(if q < 2 \<or> 36 < q then 10 else q) = q" by simp
  moreover from b have "ksprintn v q False = ''?''"
    unfolding ksprintn_placeholder by simp
  ultimately show "kvprintf (Some ''%r'') func arg q (VInt v # rest) =
          Inr \<lparr> ap = rest, sink = fold func ''?'' arg, retval = 1, stop = False,
                stored = [] \<rparr>"
    unfolding kvprintf_r by simp
qed

theorem radix_out_of_range_is_decimal_witness:
  "((99::int) < 2 \<or> 36 < (99::int))
   \<and> kvprintf (Some ''%r'') collect [] 99 [VInt 255] =
       Inr \<lparr> ap = [], sink = ''255'', retval = 3, stop = False, stored = [] \<rparr>
   \<and> vsnrprintf (replicate 8 (CHR ''#'')) 8 99 (Some ''%r'') [VInt 255] =
       Inr (3, ''255'' @ [NUL] @ ''####'')
   \<and> render ''%r'' 99 [VInt 255] \<noteq> Inr (1, ''?'')
   \<and> (2 \<le> (7::int) \<and> (7::int) \<le> 36 \<and> (7::int) \<notin> {2, 8, 10, 16})
   \<and> render ''%r'' 7 [VInt 255] = Inr (1, ''?'')
   \<and> kvprintf (Some ''%r'') collect [] 7 [VInt 255] =
       Inr \<lparr> ap = [], sink = ''?'', retval = 1, stop = False, stored = [] \<rparr>"
  using radix_out_of_range_is_decimal [where r = 99 and q = 7 and v = 255 and rest = "[]"
      and func = collect and arg = "[]" and fmt = "Some ''%r''" and ?ap0.0 = "[VInt 255]"
      and dst = "replicate 8 (CHR ''#'')" and sz = 8]
  by (simp add: radix_example collect_def)

end
